theory Spec2Isabelle
  imports Main "HOL-Library.Sublist" "HOL-Library.AList"
begin

section \<open>Strings of the host language\<close>

text \<open>
  A JavaScript string is modelled as a \<^typ>\<open>string\<close>: a list of code units, each of them
  a \<^typ>\<open>char\<close> (code units 0 to 255).  The functions below are the methods of
  \<^verbatim>\<open>String.prototype\<close> that the sources call, restricted to the arguments they are
  called with.
\<close>

definition newline_char :: char where
  "newline_char = CHR 0x0A"

definition return_char :: char where
  "return_char = CHR 0x0D"

definition backslash_char :: char where
  "backslash_char = CHR 0x5C"

definition dquote_char :: char where
  "dquote_char = CHR 0x22"

definition squote_char :: char where
  "squote_char = CHR 0x27"

text \<open>
  The white space of \<^verbatim>\<open>\s\<close> and of \<^verbatim>\<open>trim()\<close> among the code units below 256:
  tab, line feed, vertical tab, form feed, carriage return, space and no-break space.
\<close>

definition isWhitespace :: "char \<Rightarrow> bool" where
  "isWhitespace c = (c \<in> {CHR 0x09, CHR 0x0A, CHR 0x0B, CHR 0x0C, CHR 0x0D, CHR 0x20, CHR 0xA0})"

text \<open>\<^verbatim>\<open>s.trim()\<close>.\<close>

definition trim :: "string \<Rightarrow> string" where
  "trim s = rev (dropWhile isWhitespace (rev (dropWhile isWhitespace s)))"

text \<open>
  \<^verbatim>\<open>hay.indexOf(needle)\<close>: the least index at which \<open>needle\<close> starts in \<open>hay\<close>;
  \<open>None\<close> stands for the result \<^verbatim>\<open>-1\<close>.
\<close>

fun indexOf :: "string \<Rightarrow> string \<Rightarrow> nat option" where
  "indexOf needle [] = (if needle = [] then Some 0 else None)"
| "indexOf needle (c # cs) =
     (if prefix needle (c # cs) then Some 0 else map_option Suc (indexOf needle cs))"

text \<open>\<^verbatim>\<open>hay.includes(needle)\<close>.\<close>

definition includes_str :: "string \<Rightarrow> string \<Rightarrow> bool" where
  "includes_str hay needle = (indexOf needle hay \<noteq> None)"

section \<open>The font manager: the style fragment of workbench.html\<close>

definition STYLE_ID :: string where
  "STYLE_ID = ''sh1ffy-tweaks''"

definition STYLE_TAG_OPEN :: string where
  "STYLE_TAG_OPEN = ''<style id='' @ [dquote_char] @ STYLE_ID @ [dquote_char] @ ''>''"

text \<open>\<^verbatim>\<open>fontFamily.replace(/"/g, '\\"')\<close>: a backslash before every double quote.\<close>

definition escapeQuotes :: "string \<Rightarrow> string" where
  "escapeQuotes s = concat (map (\<lambda>c. if c = dquote_char then [backslash_char, dquote_char] else [c]) s)"

text \<open>
  The template literal of \<^verbatim>\<open>getStyleMarkup\<close>, before \<^verbatim>\<open>trim()\<close>: a line feed, the
  selector lines (\<open>cssSelectors\<close>) and the declaration of the font family.
\<close>

definition cssSelectors :: string where
  "cssSelectors =
     ''*:not(\<newline>'' @
     ''  .monaco-editor-background,\<newline>'' @
     ''  .monaco-editor-background *,\<newline>'' @
     ''  .sticky-widget-lines-scrollable,\<newline>'' @
     ''  .sticky-widget-lines-scrollable *,\<newline>'' @
     ''  .notebookOverlay,\<newline>'' @
     ''  .notebookOverlay *\<newline>'' @
     ''),\<newline>'' @
     ''.extensions-search-container *,\<newline>'' @
     ''.settings-editor * {\<newline>''"

definition cssTemplate :: "string \<Rightarrow> string" where
  "cssTemplate safeFont =
     ''\<newline>'' @ cssSelectors @
     ''  font-family: '' @ [dquote_char] @ safeFont @ [dquote_char] @ '';\<newline>'' @
     ''}\<newline>''"

definition getStyleMarkup :: "string \<Rightarrow> string" where
  "getStyleMarkup fontFamily =
     (let safeFont = escapeQuotes fontFamily;
          css = trim (cssTemplate safeFont)
      in ''<style id='' @ [dquote_char] @ STYLE_ID @ [dquote_char] @ ''>'' @ [newline_char] @
         css @ [newline_char] @ ''</style>'')"

text \<open>
  \<^verbatim>\<open>injectStyle\<close>: \<^verbatim>\<open>html.slice(0, i)\<close> is \<open>take i html\<close> and \<^verbatim>\<open>html.slice(i)\<close> is
  \<open>drop i html\<close> for the index \<open>i\<close> that \<^verbatim>\<open>indexOf\<close> returned.
\<close>

definition injectStyle :: "string \<Rightarrow> string \<Rightarrow> string" where
  "injectStyle html styleMarkup =
     (case indexOf ''</head>'' html of
        None \<Rightarrow> html @ [newline_char] @ styleMarkup @ [newline_char]
      | Some headCloseIndex \<Rightarrow>
          take headCloseIndex html @ styleMarkup @ [newline_char] @ drop headCloseIndex html)"

text \<open>
  \<^verbatim>\<open>removeStyle\<close> replaces the first match of the regular expression
  \<^verbatim>\<open><style\s+id="sh1ffy-tweaks"[^>]*>[\s\S]*?<\/style>\<close> by the empty string.
  \<open>matchStyleBlock s\<close> is the match that starts at the first character of \<open>s\<close>, given
  as the text that is left after it.  The pieces of the expression leave no choice to the
  matcher: \<^verbatim>\<open>\s+\<close> is followed by the letter \<^verbatim>\<open>i\<close>, \<^verbatim>\<open>[^>]*\<close> by \<^verbatim>\<open>>\<close>, and the
  lazy \<^verbatim>\<open>[\s\S]*?\<close> stops at the first \<^verbatim>\<open></style>\<close>.
\<close>

definition matchStyleBlock :: "string \<Rightarrow> string option" where
  "matchStyleBlock s =
     (if prefix ''<style'' s then
        (let r = drop (length ''<style'') s in
         if r \<noteq> [] \<and> isWhitespace (hd r) then
           (let idAttr = ''id='' @ [dquote_char] @ STYLE_ID @ [dquote_char];
                r2 = dropWhile isWhitespace r in
            if prefix idAttr r2 then
              (case dropWhile (\<lambda>c. c \<noteq> CHR ''>'') (drop (length idAttr) r2) of
                 [] \<Rightarrow> None
               | gt # body \<Rightarrow>
                   (case indexOf ''</style>'' body of
                      None \<Rightarrow> None
                    | Some k \<Rightarrow> Some (drop (k + length ''</style>'') body)))
            else None)
         else None)
      else None)"

text \<open>The leftmost match wins; without a match the text is returned as it is.\<close>

fun removeStyle :: "string \<Rightarrow> string" where
  "removeStyle [] = []"
| "removeStyle (c # cs) =
     (case matchStyleBlock (c # cs) of
        Some rest \<Rightarrow> rest
      | None \<Rightarrow> c # removeStyle cs)"

section \<open>The theme manager: string helpers\<close>

definition THEMES_DIR_RELATIVE :: string where
  "THEMES_DIR_RELATIVE = ''themes''"

definition SH1FFY_THEME_TAG :: string where
  "SH1FFY_THEME_TAG = ''sh1ffy-managed''"

definition PACKAGE_JSON_BACKUP :: string where
  "PACKAGE_JSON_BACKUP = ''package.json.sh1ffy.bak''"

text \<open>
  \<^verbatim>\<open>THEME_LABEL_PREFIX\<close> is \<^verbatim>\<open>"sh1ffy \u2022 "\<close>.  The bullet U+2022 is one code unit
  that is no letter, no digit and no white space; it lies outside the range of \<^typ>\<open>char\<close>
  and is written here as the single unit \<open>0x95\<close>, which has the same three properties.
\<close>

definition THEME_LABEL_PREFIX :: string where
  "THEME_LABEL_PREFIX = ''sh1ffy '' @ [CHR 0x95] @ '' ''"

text \<open>\<^verbatim>\<open>toLowerCase()\<close> on the code units below 256.\<close>

definition toLowerChar :: "char \<Rightarrow> char" where
  "toLowerChar c =
     (let n = (of_char c :: nat)
      in if (65 \<le> n \<and> n \<le> 90) \<or> (192 \<le> n \<and> n \<le> 222 \<and> n \<noteq> 215) then char_of (n + 32) else c)"

definition toLowerCase :: "string \<Rightarrow> string" where
  "toLowerCase s = map toLowerChar s"

definition isSafeIdChar :: "char \<Rightarrow> bool" where
  "isSafeIdChar c =
     (let n = (of_char c :: nat) in (97 \<le> n \<and> n \<le> 122) \<or> (48 \<le> n \<and> n \<le> 57))"

text \<open>\<^verbatim>\<open>.replace(/[^a-z0-9]+/g, "-")\<close>: every maximal run of other characters becomes one dash.\<close>

function collapseUnsafe :: "string \<Rightarrow> string" where
  "collapseUnsafe [] = []"
| "collapseUnsafe (c # cs) =
     (if isSafeIdChar c then c # collapseUnsafe cs
      else CHR ''-'' # collapseUnsafe (dropWhile (\<lambda>d. \<not> isSafeIdChar d) cs))"
  by pat_completeness auto
termination
  by (relation "measure length") (auto simp: length_dropWhile_le less_Suc_eq_le)

text \<open>\<^verbatim>\<open>.replace(/^-+|-+$/g, "")\<close>: the dashes at both ends go.\<close>

definition stripDashes :: "string \<Rightarrow> string" where
  "stripDashes s =
     rev (dropWhile (\<lambda>c. c = CHR ''-'') (rev (dropWhile (\<lambda>c. c = CHR ''-'') s)))"

definition toSafeId :: "string \<Rightarrow> string" where
  "toSafeId input = stripDashes (collapseUnsafe (toLowerCase input))"

text \<open>
  \<^verbatim>\<open>name.replace(/\.[^.]+$/, "")\<close>: the last dot and what follows it are removed when at
  least one character follows that dot.
\<close>

definition stripExtension :: "string \<Rightarrow> string" where
  "stripExtension name =
     (let tail = takeWhile (\<lambda>c. c \<noteq> CHR ''.'') (rev name)
      in if tail \<noteq> [] \<and> length tail < length name
         then take (length name - length tail - 1) name
         else name)"

text \<open>\<^verbatim>\<open>s.replace(/\\/g, "/")\<close>.\<close>

definition backslashesToSlashes :: "string \<Rightarrow> string" where
  "backslashesToSlashes s = map (\<lambda>c. if c = backslash_char then CHR ''/'' else c) s"

subsection \<open>The comment stripper\<close>

text \<open>The local variables of \<^verbatim>\<open>stripJsonComments\<close>; \<open>outputStr\<close> is \<^verbatim>\<open>output\<close>.\<close>

record scanState =
  outputStr :: string
  inString :: bool
  stringChar :: "char option"
  inLineComment :: bool
  inBlockComment :: bool

text \<open>
  The inner \<^verbatim>\<open>while (j >= 0 && input[j] === "\\")\<close> loop.  The argument is \<open>j + 1\<close>, so
  that \<open>0\<close> stands for \<^verbatim>\<open>j = -1\<close>; the result is the final value of \<^verbatim>\<open>backslashes\<close>.
\<close>

fun countBackslashes :: "string \<Rightarrow> nat \<Rightarrow> nat" where
  "countBackslashes input 0 = 0"
| "countBackslashes input (Suc j) =
     (if input ! j = backslash_char then Suc (countBackslashes input j) else 0)"

text \<open>The \<^verbatim>\<open>if (ch === '"' || ch === "'")\<close> block of the loop body, at index \<open>i\<close>.\<close>

definition quoteStep :: "string \<Rightarrow> nat \<Rightarrow> char \<Rightarrow> scanState \<Rightarrow> scanState" where
  "quoteStep input i ch s =
     (if ch = dquote_char \<or> ch = squote_char then
        (if \<not> inString s then s\<lparr>inString := True, stringChar := Some ch\<rparr>
         else if stringChar s = Some ch then
           (if countBackslashes input i mod 2 = 0
            then s\<lparr>inString := False, stringChar := None\<rparr>
            else s)
         else s)
      else s)"

text \<open>
  The \<^verbatim>\<open>for\<close> loop from index \<open>i\<close> on.  \<^verbatim>\<open>next\<close> is a string of length one, or the empty
  string at the last index.  A \<^verbatim>\<open>continue\<close> after \<^verbatim>\<open>i++\<close> resumes at \<open>i + 2\<close>.
\<close>

function stripLoop :: "string \<Rightarrow> nat \<Rightarrow> scanState \<Rightarrow> string" where
  "stripLoop input i s =
     (if i < length input then
        (let ch = input ! i;
             next = (if i + 1 < length input then [input ! (i + 1)] else [])
         in if inLineComment s then
              (if ch = newline_char \<or> ch = return_char
               then stripLoop input (i + 1) (s\<lparr>inLineComment := False, outputStr := outputStr s @ [ch]\<rparr>)
               else stripLoop input (i + 1) s)
            else if inBlockComment s then
              (if ch = CHR ''*'' \<and> next = ''/''
               then stripLoop input (i + 2) (s\<lparr>inBlockComment := False\<rparr>)
               else stripLoop input (i + 1) s)
            else if \<not> inString s \<and> ch = CHR ''/'' \<and> next = ''/'' then
              stripLoop input (i + 2) (s\<lparr>inLineComment := True\<rparr>)
            else if \<not> inString s \<and> ch = CHR ''/'' \<and> next = ''*'' then
              stripLoop input (i + 2) (s\<lparr>inBlockComment := True\<rparr>)
            else
              (let s' = quoteStep input i ch s
               in stripLoop input (i + 1) (s'\<lparr>outputStr := outputStr s' @ [ch]\<rparr>)))
      else outputStr s)"
  by pat_completeness auto
termination
  by (relation "measure (\<lambda>(input, i, s). length input - i)") auto

definition stripJsonComments :: "string \<Rightarrow> string" where
  "stripJsonComments input =
     stripLoop input 0
       \<lparr>outputStr = [], inString = False, stringChar = None,
        inLineComment = False, inBlockComment = False\<rparr>"

section \<open>Paths\<close>

text \<open>
  The functions of \<^verbatim>\<open>node:path\<close> that the sources call, in their POSIX form: the
  separator is the slash, and a backslash is an ordinary character of a file name.
\<close>

fun splitSlash :: "string \<Rightarrow> string list" where
  "splitSlash [] = [[]]"
| "splitSlash (c # cs) =
     (if c = CHR ''/'' then [] # splitSlash cs
      else (case splitSlash cs of
              [] \<Rightarrow> [[c]]
            | seg # segs \<Rightarrow> (c # seg) # segs))"

fun joinSlash :: "string list \<Rightarrow> string" where
  "joinSlash [] = []"
| "joinSlash [seg] = seg"
| "joinSlash (seg # seg' # segs) = seg @ ''/'' @ joinSlash (seg' # segs)"

text \<open>
  \<^verbatim>\<open>normalizeString\<close>, on the segments between the slashes.  \<open>acc\<close> holds the segments
  kept so far, the last one first.  Empty segments and \<^verbatim>\<open>.\<close> are dropped; \<^verbatim>\<open>..\<close> removes
  the last kept segment unless that is \<^verbatim>\<open>..\<close> itself or there is none, and is then kept
  only when the path may rise above its start (\<open>allowAboveRoot\<close>).
\<close>

fun normalizeSegments :: "bool \<Rightarrow> string list \<Rightarrow> string list \<Rightarrow> string list" where
  "normalizeSegments allowAboveRoot acc [] = rev acc"
| "normalizeSegments allowAboveRoot acc (seg # segs) =
     (if seg = [] \<or> seg = ''.'' then normalizeSegments allowAboveRoot acc segs
      else if seg = ''..'' then
        (case acc of
           [] \<Rightarrow> normalizeSegments allowAboveRoot (if allowAboveRoot then [''..''] else []) segs
         | a # as \<Rightarrow>
             if a = ''..''
             then normalizeSegments allowAboveRoot (if allowAboveRoot then ''..'' # acc else acc) segs
             else normalizeSegments allowAboveRoot as segs)
      else normalizeSegments allowAboveRoot (seg # acc) segs)"

definition normalize :: "string \<Rightarrow> string" where
  "normalize p =
     (if p = [] then ''.''
      else
        (let isAbsolute = (hd p = CHR ''/'');
             trailingSeparator = (last p = CHR ''/'');
             body = joinSlash (normalizeSegments (\<not> isAbsolute) [] (splitSlash p))
         in if body = [] then (if isAbsolute then ''/'' else if trailingSeparator then ''./'' else ''.'')
            else (if isAbsolute then ''/'' else []) @ body @ (if trailingSeparator then ''/'' else [])))"

text \<open>\<^verbatim>\<open>path.join(...args)\<close>.\<close>

definition pathJoin :: "string list \<Rightarrow> string" where
  "pathJoin args =
     (let parts = filter (\<lambda>a. a \<noteq> []) args
      in if parts = [] then ''.'' else normalize (joinSlash parts))"

text \<open>\<^verbatim>\<open>path.basename(p)\<close>: the last portion of the path, trailing slashes left aside.\<close>

definition basename :: "string \<Rightarrow> string" where
  "basename p =
     rev (takeWhile (\<lambda>c. c \<noteq> CHR ''/'') (dropWhile (\<lambda>c. c = CHR ''/'') (rev p)))"

text \<open>
  \<^verbatim>\<open>path.extname(p)\<close>: from the last dot of the last portion to its end; empty when there
  is no dot, when the only dot is the first character, and for \<^verbatim>\<open>..\<close>.
\<close>

definition extname :: "string \<Rightarrow> string" where
  "extname p =
     (let name = basename p
      in if CHR ''.'' \<notin> set name then []
         else
           (let startDot = length name - length (takeWhile (\<lambda>c. c \<noteq> CHR ''.'') (rev name)) - 1
            in if startDot = 0 \<or> name = ''..'' then [] else drop startDot name))"

section \<open>JSON values and the host\<close>

text \<open>
  The values that \<^verbatim>\<open>JSON.parse\<close> returns.  An object is the list of its properties in
  the order of their creation.  Of a number only its being zero or not is ever observed.
\<close>

datatype json =
    JNull
  | JBool bool
  | JNum int
  | JStr string
  | JArr "json list"
  | JObj "(string \<times> json) list"

datatype error = TypeError | SyntaxError | ENOENT | InvalidTheme

text \<open>The truth value of a JSON value; \<open>None\<close> is \<^verbatim>\<open>undefined\<close>.\<close>

fun truthy :: "json \<Rightarrow> bool" where
  "truthy JNull = False"
| "truthy (JBool b) = b"
| "truthy (JNum n) = (n \<noteq> 0)"
| "truthy (JStr s) = (s \<noteq> [])"
| "truthy (JArr xs) = True"
| "truthy (JObj kvs) = True"

definition truthyOpt :: "json option \<Rightarrow> bool" where
  "truthyOpt v = (case v of None \<Rightarrow> False | Some j \<Rightarrow> truthy j)"

text \<open>
  \<^verbatim>\<open>value.key\<close> for the keys the sources read (\<^verbatim>\<open>name\<close>, \<^verbatim>\<open>type\<close>, \<^verbatim>\<open>uiTheme\<close>,
  \<^verbatim>\<open>contributes\<close>, \<^verbatim>\<open>themes\<close>, \<^verbatim>\<open>_sh1ffyTag\<close>): reading from \<^verbatim>\<open>null\<close> throws a
  \<^verbatim>\<open>TypeError\<close>; an array, a string, a number and a boolean have none of these
  properties.
\<close>

fun getProp :: "json \<Rightarrow> string \<Rightarrow> error + json option" where
  "getProp JNull key = Inl TypeError"
| "getProp (JObj kvs) key = Inr (map_of kvs key)"
| "getProp other key = Inr None"

definition digitChar :: "nat \<Rightarrow> char" where
  "digitChar d = char_of (48 + d)"

function showNat :: "nat \<Rightarrow> string" where
  "showNat n = (if n < 10 then [digitChar n] else showNat (n div 10) @ [digitChar (n mod 10)])"
  by pat_completeness auto
termination
  by (relation "measure id") auto

text \<open>
  The own enumerable properties that \<^verbatim>\<open>{ ...value }\<close> copies: those of an object, the
  indexed elements of an array and the indexed characters of a string.
\<close>

fun spreadProps :: "json \<Rightarrow> (string \<times> json) list" where
  "spreadProps (JObj kvs) = kvs"
| "spreadProps (JArr xs) = zip (map showNat [0..<length xs]) xs"
| "spreadProps (JStr s) = zip (map showNat [0..<length s]) (map (\<lambda>c. JStr [c]) s)"
| "spreadProps other = []"

text \<open>
  What the host provides and the sources only call: \<^verbatim>\<open>JSON.parse\<close> (\<open>None\<close> when it
  throws a \<^verbatim>\<open>SyntaxError\<close>), \<^verbatim>\<open>JSON.stringify(value, null, 2)\<close>, the installation
  directory of the editor and the directory of the extension.
\<close>

record host =
  parseJSON :: "string \<Rightarrow> json option"
  stringifyJSON :: "json \<Rightarrow> string"
  appRoot :: string
  extensionRoot :: string

section \<open>The theme manager: theme objects and contribution entries\<close>

definition normalizeThemeObject :: "json \<Rightarrow> string \<Rightarrow> json" where
  "normalizeThemeObject themeObject fileName =
     (let clone = spreadProps themeObject;
          baseNameFromFile = stripExtension fileName;
          originalName =
            (case map_of clone ''name'' of
               Some (JStr n) \<Rightarrow> if length (trim n) > 0 then n else baseNameFromFile
             | _ \<Rightarrow> baseNameFromFile);
          prefixedName =
            (if prefix THEME_LABEL_PREFIX originalName then originalName
             else THEME_LABEL_PREFIX @ originalName);
          clone1 = AList.update ''name'' (JStr prefixedName) clone
      in if \<not> truthyOpt (map_of clone1 ''type'') \<and> \<not> truthyOpt (map_of clone1 ''uiTheme'')
         then JObj (AList.update ''type'' (JStr ''dark'') clone1)
         else JObj clone1)"

text \<open>\<^verbatim>\<open>Sh1ffyThemeEntry\<close>; the optional \<^verbatim>\<open>sourceFile\<close> is never set.\<close>

record themeEntry =
  entryId :: string
  entryLabel :: string
  entryUiTheme :: string
  entryPath :: string
  entryTypeLabel :: string

text \<open>
  The body of the \<^verbatim>\<open>try\<close> block of \<^verbatim>\<open>readImportedThemesFromDisk\<close> for one file, from
  its text \<open>raw\<close> on.  \<^verbatim>\<open>type.toLowerCase()\<close> throws unless \<^verbatim>\<open>type\<close> is a string.
\<close>

definition themeEntryOfFile :: "host \<Rightarrow> string \<Rightarrow> string \<Rightarrow> error + themeEntry" where
  "themeEntryOfFile h fileName raw =
     (case parseJSON h raw of
        None \<Rightarrow> Inl SyntaxError
      | Some obj \<Rightarrow>
          (case getProp obj ''name'' of
             Inl e \<Rightarrow> Inl e
           | Inr nameProp \<Rightarrow>
               (let label =
                      (case nameProp of
                         Some (JStr n) \<Rightarrow> if length (trim n) > 0 then n else stripExtension fileName
                       | _ \<Rightarrow> stripExtension fileName);
                    baseId = toSafeId label;
                    ident = ''sh1ffy.'' @ baseId;
                    relativePath = pathJoin [THEMES_DIR_RELATIVE, fileName]
                in case getProp obj ''type'' of
                     Inl e \<Rightarrow> Inl e
                   | Inr typeProp \<Rightarrow>
                       (case (case typeProp of None \<Rightarrow> JStr ''dark'' | Some JNull \<Rightarrow> JStr ''dark'' | Some v \<Rightarrow> v) of
                          JStr ty \<Rightarrow>
                            (let lower = toLowerCase ty;
                                 (ui, typeLabel) =
                                   (if lower = ''light'' \<or> lower = ''vs'' then (''vs'', ''Light'')
                                    else if lower = ''hc'' \<or> lower = ''hc-black'' \<or> lower = ''high-contrast''
                                    then (''hc-black'', ''High Contrast'')
                                    else (''vs-dark'', ''Dark''))
                             in Inr \<lparr>entryId = ident, entryLabel = label, entryUiTheme = ui,
                                     entryPath = backslashesToSlashes relativePath,
                                     entryTypeLabel = typeLabel\<rparr>)
                        | _ \<Rightarrow> Inl TypeError))))"

text \<open>An entry of \<^verbatim>\<open>contributes.themes\<close> made from a theme on disk.\<close>

definition contributionOf :: "themeEntry \<Rightarrow> json" where
  "contributionOf theme =
     JObj [(''id'', JStr (entryId theme)),
           (''label'', JStr (entryLabel theme)),
           (''uiTheme'', JStr (entryUiTheme theme)),
           (''path'', JStr (''./'' @ entryPath theme)),
           (''_sh1ffyTag'', JStr SH1FFY_THEME_TAG)]"

text \<open>The test of \<^verbatim>\<open>existing.filter\<close>: \<^verbatim>\<open>entry && entry._sh1ffyTag !== SH1FFY_THEME_TAG\<close>.\<close>

definition keptEntry :: "json \<Rightarrow> bool" where
  "keptEntry entry =
     (truthy entry \<and> getProp entry ''_sh1ffyTag'' \<noteq> Inr (Some (JStr SH1FFY_THEME_TAG)))"

text \<open>
  \<^verbatim>\<open>syncPackageJsonThemes\<close> between \<^verbatim>\<open>readPackageJson\<close> and \<^verbatim>\<open>writePackageJson\<close>: the
  value that is written for the value that was read.  A property set on an array is not
  part of what \<^verbatim>\<open>JSON.stringify\<close> writes, and a property cannot be kept on a string, a
  number or a boolean, where the next read of it is \<^verbatim>\<open>undefined\<close> and throws.
\<close>

definition syncContributions :: "json \<Rightarrow> themeEntry list \<Rightarrow> error + json" where
  "syncContributions pkg themesOnDisk =
     (let sh1ffyEntries = map contributionOf themesOnDisk in
      case pkg of
        JNull \<Rightarrow> Inl TypeError
      | JArr xs \<Rightarrow> Inr pkg
      | JObj props \<Rightarrow>
          (let contributes =
                 (if truthyOpt (map_of props ''contributes'') then the (map_of props ''contributes'')
                  else JObj [])
           in case contributes of
                JObj cprops \<Rightarrow>
                  (let existing = (case map_of cprops ''themes'' of Some (JArr es) \<Rightarrow> es | _ \<Rightarrow> []);
                       filtered = filter keptEntry existing
                   in Inr (JObj (AList.update ''contributes''
                                  (JObj (AList.update ''themes'' (JArr (filtered @ sh1ffyEntries)) cprops))
                                  props)))
              | JArr cs \<Rightarrow> Inr (JObj (AList.update ''contributes'' contributes props))
              | _ \<Rightarrow> Inl TypeError)
      | _ \<Rightarrow> Inl TypeError)"

section \<open>The file system and the settings\<close>

text \<open>
  The state the handlers work on: the regular files (path and text, in the order in which
  a directory lists them), the two settings the handlers write, and the module variable
  \<^verbatim>\<open>cachedWorkbenchPath\<close>.  Directories are not tracked: a directory is there when it is
  looked for, so that \<^verbatim>\<open>mkdirSync\<close> changes nothing, and a directory without files lists
  as empty, which is also what the sources return for a missing themes directory.  Reading
  a missing file throws; no other operation of the file system fails.
\<close>

record world =
  files :: "(string \<times> string) list"
  workbenchFont :: "string option"
  colorTheme :: "string option"
  cachedWorkbenchPath :: "string option"

definition readFileSync :: "world \<Rightarrow> string \<Rightarrow> string option" where
  "readFileSync w p = map_of (files w) p"

definition existsSync :: "world \<Rightarrow> string \<Rightarrow> bool" where
  "existsSync w p = (map_of (files w) p \<noteq> None)"

definition writeFileSync :: "string \<Rightarrow> string \<Rightarrow> world \<Rightarrow> world" where
  "writeFileSync p text w = w\<lparr>files := AList.update p text (files w)\<rparr>"

definition unlinkSync :: "string \<Rightarrow> world \<Rightarrow> world" where
  "unlinkSync p w = w\<lparr>files := AList.delete p (files w)\<rparr>"

definition copyFileSync :: "string \<Rightarrow> string \<Rightarrow> world \<Rightarrow> world" where
  "copyFileSync src dst w =
     (case readFileSync w src of None \<Rightarrow> w | Some text \<Rightarrow> writeFileSync dst text w)"

text \<open>
  The names that \<^verbatim>\<open>readdirSync(dir)\<close> lists: the files whose path is \<open>dir\<close>, a slash and
  a name without a slash.
\<close>

definition childName :: "string \<Rightarrow> string \<Rightarrow> string option" where
  "childName dir p =
     (if prefix (dir @ ''/'') p then
        (let name = drop (length dir + 1) p
         in if name \<noteq> [] \<and> CHR ''/'' \<notin> set name then Some name else None)
      else None)"

definition readdirSync :: "world \<Rightarrow> string \<Rightarrow> string list" where
  "readdirSync w dir = List.map_filter (\<lambda>(p, text). childName dir p) (files w)"

section \<open>The font manager: handlers\<close>

definition sandboxRelative :: string where
  "sandboxRelative = ''out/vs/code/electron-sandbox/workbench/workbench.html''"

definition browserRelative :: string where
  "browserRelative = ''out/vs/code/electron-browser/workbench/workbench.html''"

text \<open>\<^verbatim>\<open>getWorkbenchPath\<close> returns the path and leaves it in the cache.\<close>

definition getWorkbenchPath :: "host \<Rightarrow> world \<Rightarrow> string \<times> world" where
  "getWorkbenchPath h w =
     (case cachedWorkbenchPath w of
        Some cached \<Rightarrow>
          if cached \<noteq> [] then (cached, w)
          else
            (let resolved = pathJoin [appRoot h, sandboxRelative];
                 resolved' = (if \<not> existsSync w resolved then pathJoin [appRoot h, browserRelative] else resolved)
             in (resolved', w\<lparr>cachedWorkbenchPath := Some resolved'\<rparr>))
      | None \<Rightarrow>
          (let resolved = pathJoin [appRoot h, sandboxRelative];
               resolved' = (if \<not> existsSync w resolved then pathJoin [appRoot h, browserRelative] else resolved)
           in (resolved', w\<lparr>cachedWorkbenchPath := Some resolved'\<rparr>)))"

text \<open>\<^verbatim>\<open>getWorkbenchHtml\<close>: \<open>None\<close> when \<^verbatim>\<open>readFileSync\<close> throws.\<close>

definition getWorkbenchHtml :: "host \<Rightarrow> world \<Rightarrow> string option \<times> world" where
  "getWorkbenchHtml h w = (let (p, w') = getWorkbenchPath h w in (readFileSync w' p, w'))"

definition saveWorkbenchHtml :: "host \<Rightarrow> string \<Rightarrow> world \<Rightarrow> world" where
  "saveWorkbenchHtml h html w = (let (p, w') = getWorkbenchPath h w in writeFileSync p html w')"

definition getWorkbenchFont :: "world \<Rightarrow> string option" where
  "getWorkbenchFont w = workbenchFont w"

definition setWorkbenchFont :: "string option \<Rightarrow> world \<Rightarrow> world" where
  "setWorkbenchFont font w = w\<lparr>workbenchFont := font\<rparr>"

text \<open>\<^verbatim>\<open>!font\<close>: the setting is undefined or the empty string.\<close>

definition noFont :: "string option \<Rightarrow> bool" where
  "noFont font = (case font of None \<Rightarrow> True | Some f \<Rightarrow> f = [])"

text \<open>
  The handlers take the answers of the user as arguments.  An answer is the label of the
  button that was pressed or the text that was entered, and \<open>None\<close> when the dialog was
  dismissed.  The notifications whose only action is to reload the window are left out:
  reloading changes no file and no setting.  A caught exception leaves the state as it was
  when it was thrown, and the handler goes on to show its error message.
\<close>

definition handleReloadFontConfiguration :: "host \<Rightarrow> world \<Rightarrow> world" where
  "handleReloadFontConfiguration h w =
     (case getWorkbenchFont w of
        None \<Rightarrow> w
      | Some font \<Rightarrow>
          if font = [] then w
          else
            (case getWorkbenchHtml h w of
               (None, w1) \<Rightarrow> w1
             | (Some html0, w1) \<Rightarrow>
                 (let html = (if includes_str html0 STYLE_TAG_OPEN then removeStyle html0 else html0);
                      styleMarkup = getStyleMarkup font;
                      newHtml = injectStyle html styleMarkup
                  in saveWorkbenchHtml h newHtml w1)))"

definition handleDisableCustomFont :: "host \<Rightarrow> world \<Rightarrow> world" where
  "handleDisableCustomFont h w =
     (case getWorkbenchHtml h w of
        (None, w1) \<Rightarrow> w1
      | (Some html, w1) \<Rightarrow>
          if \<not> includes_str html STYLE_TAG_OPEN then w1
          else saveWorkbenchHtml h (removeStyle html) w1)"

definition handleResetToDefaults :: "host \<Rightarrow> string option \<Rightarrow> world \<Rightarrow> world" where
  "handleResetToDefaults h confirmation w =
     (if confirmation \<noteq> Some ''Reset'' then w
      else
        (let w0 = setWorkbenchFont None w in
         case getWorkbenchHtml h w0 of
           (None, w1) \<Rightarrow> w1
         | (Some html, w1) \<Rightarrow>
             if includes_str html STYLE_TAG_OPEN then saveWorkbenchHtml h (removeStyle html) w1
             else w1))"

text \<open>The \<^verbatim>\<open>try\<close> block of \<^verbatim>\<open>handleEnableCustomFont\<close>, for the font that is configured.\<close>

definition enableWithFont :: "host \<Rightarrow> string \<Rightarrow> world \<Rightarrow> world" where
  "enableWithFont h font w =
     (case getWorkbenchHtml h w of
        (None, w1) \<Rightarrow> w1
      | (Some html, w1) \<Rightarrow>
          if includes_str html STYLE_TAG_OPEN then w1
          else
            (let styleMarkup = getStyleMarkup font;
                 newHtml = injectStyle html styleMarkup
             in saveWorkbenchHtml h newHtml w1))"

text \<open>
  \<^verbatim>\<open>handleSetCustomFont\<close> and \<^verbatim>\<open>handleEnableCustomFont\<close> call each other.  Both take the
  answers still to come, one for each dialog they open; when the list has run out, a
  dialog is dismissed.  \<^verbatim>\<open>handleSetCustomFont\<close> opens the input box and then the
  notification with one button; \<^verbatim>\<open>handleEnableCustomFont\<close> opens the warning with the
  button \<^verbatim>\<open>Set font\<close> when no font is configured.
\<close>

function handleSetCustomFont :: "host \<Rightarrow> string option list \<Rightarrow> world \<Rightarrow> world"
  and handleEnableCustomFont :: "host \<Rightarrow> string option list \<Rightarrow> world \<Rightarrow> world" where
  "handleSetCustomFont h answers w =
     (case answers of
        [] \<Rightarrow> w
      | None # rest \<Rightarrow> w
      | Some val # rest \<Rightarrow>
          (let trimmed = trim val in
           if trimmed = [] then w
           else
             (let w0 = setWorkbenchFont (Some trimmed) w in
              case getWorkbenchHtml h w0 of
                (None, w1) \<Rightarrow> w1
              | (Some html, w1) \<Rightarrow>
                  (let hasStyle = includes_str html STYLE_TAG_OPEN in
                   case rest of
                     [] \<Rightarrow> w1
                   | None # rest' \<Rightarrow> w1
                   | Some action # rest' \<Rightarrow>
                       if action = [] then w1
                       else if hasStyle then handleReloadFontConfiguration h w1
                       else handleEnableCustomFont h rest' w1))))"
| "handleEnableCustomFont h answers w =
     (if noFont (getWorkbenchFont w) then
        (case answers of
           [] \<Rightarrow> w
         | action # rest \<Rightarrow>
             if action = Some ''Set font'' then handleSetCustomFont h rest w else w)
      else enableWithFont h (the (getWorkbenchFont w)) w)"
  by pat_completeness auto
termination
  by (relation "measure (\<lambda>x. case x of Inl (h, answers, w) \<Rightarrow> length answers
                                     | Inr (h, answers, w) \<Rightarrow> length answers)") auto

section \<open>The theme manager: handlers\<close>

text \<open>\<^verbatim>\<open>readImportedThemesFromDisk\<close>: a file whose \<^verbatim>\<open>try\<close> block throws contributes nothing.\<close>

definition readImportedThemesFromDisk :: "host \<Rightarrow> world \<Rightarrow> themeEntry list" where
  "readImportedThemesFromDisk h w =
     (let themesDir = pathJoin [extensionRoot h, THEMES_DIR_RELATIVE];
          fileNames = filter (\<lambda>name. suffix ''.json'' name) (readdirSync w themesDir)
      in List.map_filter
           (\<lambda>fileName.
              (let filePath = pathJoin [themesDir, fileName] in
               case readFileSync w filePath of
                 None \<Rightarrow> None
               | Some raw \<Rightarrow>
                   (case themeEntryOfFile h fileName raw of
                      Inl e \<Rightarrow> None
                    | Inr entry \<Rightarrow> Some entry)))
           fileNames)"

definition readPackageJson :: "host \<Rightarrow> world \<Rightarrow> error + json" where
  "readPackageJson h w =
     (case readFileSync w (pathJoin [extensionRoot h, ''package.json'']) of
        None \<Rightarrow> Inl ENOENT
      | Some raw \<Rightarrow> (case parseJSON h raw of None \<Rightarrow> Inl SyntaxError | Some pkg \<Rightarrow> Inr pkg))"

definition writePackageJson :: "host \<Rightarrow> json \<Rightarrow> world \<Rightarrow> world" where
  "writePackageJson h pkg w =
     (let pkgPath = pathJoin [extensionRoot h, ''package.json''];
          backupPath = pathJoin [extensionRoot h, PACKAGE_JSON_BACKUP];
          w1 = (if \<not> existsSync w backupPath \<and> existsSync w pkgPath
                then copyFileSync pkgPath backupPath w else w);
          json = stringifyJSON h pkg
      in writeFileSync pkgPath json w1)"

text \<open>\<^verbatim>\<open>syncPackageJsonThemes\<close>: \<open>Inl\<close> when it throws, which is before anything is written.\<close>

definition syncPackageJsonThemes :: "host \<Rightarrow> world \<Rightarrow> error + world" where
  "syncPackageJsonThemes h w =
     (case readPackageJson h w of
        Inl e \<Rightarrow> Inl e
      | Inr pkg \<Rightarrow>
          (case syncContributions pkg (readImportedThemesFromDisk h w) of
             Inl e \<Rightarrow> Inl e
           | Inr pkg' \<Rightarrow> Inr (writePackageJson h pkg' w)))"

text \<open>The name under which an imported file is stored in the themes directory.\<close>

definition targetFileNameOf :: "string \<Rightarrow> string" where
  "targetFileNameOf absolutePath =
     (let originalFileName = basename absolutePath;
          originalExt = toLowerCase (extname originalFileName);
          targetExt = ''.json'';
          baseNameWithoutExt = stripExtension originalFileName
      in if originalExt = ''.json'' then originalFileName else baseNameWithoutExt @ targetExt)"

text \<open>
  \<^verbatim>\<open>normalized.name ?? baseNameWithoutExt\<close>.  \<^verbatim>\<open>normalizeThemeObject\<close> always sets the name
  to a string, so the last case is never taken.
\<close>

definition labelOf :: "json \<Rightarrow> string \<Rightarrow> string" where
  "labelOf normalized baseNameWithoutExt =
     (case getProp normalized ''name'' of
        Inr (Some (JStr l)) \<Rightarrow> l
      | _ \<Rightarrow> baseNameWithoutExt)"

text \<open>
  The rest of a round of the \<^verbatim>\<open>for\<close> loop of \<^verbatim>\<open>handleImportThemes\<close>, once the file has
  been parsed to a value that is truthy and of type \<^verbatim>\<open>object\<close>.
\<close>

definition importParsed ::
  "host \<Rightarrow> themeEntry list \<Rightarrow> string \<Rightarrow> string option \<Rightarrow> json \<Rightarrow> world \<times> string list \<Rightarrow> world \<times> string list" where
  "importParsed h existingThemes absolutePath decision themeObject st =
     (let (w, importedNames) = st;
          themesDir = pathJoin [extensionRoot h, THEMES_DIR_RELATIVE];
          originalFileName = basename absolutePath;
          normalized = normalizeThemeObject themeObject originalFileName;
          json = stringifyJSON h normalized;
          baseNameWithoutExt = stripExtension originalFileName;
          targetFileName = targetFileNameOf absolutePath;
          label = labelOf normalized baseNameWithoutExt;
          alreadyExisting = find (\<lambda>t. entryLabel t = label) existingThemes
      in if alreadyExisting \<noteq> None \<and> decision \<noteq> Some ''Overwrite'' then st
         else
           (let targetPath = pathJoin [themesDir, targetFileName]
            in (writeFileSync targetPath json w, importedNames @ [label])))"

text \<open>
  One round of the \<^verbatim>\<open>for\<close> loop of \<^verbatim>\<open>handleImportThemes\<close>, for the file at
  \<open>absolutePath\<close>; \<open>decision\<close> is the answer to the question about a theme that exists
  already, should it be asked.  The state carries \<^verbatim>\<open>importedNames\<close>.  Every exception is
  caught inside the round, which then leaves the state as it is.
\<close>

definition importOne ::
  "host \<Rightarrow> themeEntry list \<Rightarrow> string \<times> string option \<Rightarrow> world \<times> string list \<Rightarrow> world \<times> string list" where
  "importOne h existingThemes uri st =
     (let (absolutePath, decision) = uri;
          (w, importedNames) = st
      in case readFileSync w absolutePath of
           None \<Rightarrow> st
         | Some fileContent \<Rightarrow>
             (case parseJSON h (stripJsonComments fileContent) of
                None \<Rightarrow> st
              | Some themeObject \<Rightarrow>
                  (case themeObject of
                     JObj _ \<Rightarrow> importParsed h existingThemes absolutePath decision themeObject st
                   | JArr _ \<Rightarrow> importParsed h existingThemes absolutePath decision themeObject st
                   | _ \<Rightarrow> st)))"

text \<open>
  \<^verbatim>\<open>handleImportThemes\<close>.  \<open>uris\<close> is the answer of the file dialog, each file with the
  answer to the question about an existing theme; \<open>action\<close> is the answer to the
  notification after the import of a single theme.  When \<^verbatim>\<open>syncPackageJsonThemes\<close> throws,
  the handler ends there.
\<close>

definition handleImportThemes ::
  "host \<Rightarrow> (string \<times> string option) list option \<Rightarrow> string option \<Rightarrow> world \<Rightarrow> world" where
  "handleImportThemes h uris action w =
     (case uris of
        None \<Rightarrow> w
      | Some us \<Rightarrow>
          if us = [] then w
          else
            (let existingThemes = readImportedThemesFromDisk h w;
                 (w1, importedNames) = foldl (\<lambda>st uri. importOne h existingThemes uri st) (w, []) us
             in case syncPackageJsonThemes h w1 of
                  Inl e \<Rightarrow> w1
                | Inr w2 \<Rightarrow>
                    if length importedNames = 1 \<and> action = Some ''Apply now''
                    then w2\<lparr>colorTheme := Some (hd importedNames)\<rparr>
                    else w2))"

text \<open>One round of the \<^verbatim>\<open>for\<close> loop of \<^verbatim>\<open>handleRemoveThemes\<close>, for the picked theme.\<close>

definition removeThemeFile :: "host \<Rightarrow> world \<Rightarrow> themeEntry \<Rightarrow> world" where
  "removeThemeFile h w theme =
     (let themesDir = pathJoin [extensionRoot h, THEMES_DIR_RELATIVE];
          absolutePath = pathJoin [extensionRoot h, entryPath theme]
      in if prefix themesDir absolutePath \<and> existsSync w absolutePath
         then unlinkSync absolutePath w
         else w)"

text \<open>
  \<^verbatim>\<open>handleRemoveThemes\<close>.  \<open>picked\<close> is the answer of the quick pick, as the positions of
  the picked themes in the list that was shown; \<open>confirmation\<close> is the answer of the modal
  dialog.
\<close>

definition handleRemoveThemes :: "host \<Rightarrow> nat list option \<Rightarrow> string option \<Rightarrow> world \<Rightarrow> world" where
  "handleRemoveThemes h picked confirmation w =
     (let themes = readImportedThemesFromDisk h w in
      if themes = [] then w
      else
        (case picked of
           None \<Rightarrow> w
         | Some positions \<Rightarrow>
             (let picks = map (\<lambda>i. themes ! i) (filter (\<lambda>i. i < length themes) positions) in
              if picks = [] then w
              else if confirmation \<noteq> Some ''Remove'' then w
              else
                (let w1 = foldl (removeThemeFile h) w picks
                 in case syncPackageJsonThemes h w1 of
                      Inl e \<Rightarrow> w1
                    | Inr w2 \<Rightarrow> w2))))"

definition handleListThemes :: "host \<Rightarrow> world \<Rightarrow> world" where
  "handleListThemes h w = w"

definition handleRepairContributions :: "host \<Rightarrow> world \<Rightarrow> world" where
  "handleRepairContributions h w =
     (case syncPackageJsonThemes h w of Inl e \<Rightarrow> w | Inr w' \<Rightarrow> w')"

definition handleRestorePackageJsonBackup :: "host \<Rightarrow> string option \<Rightarrow> world \<Rightarrow> world" where
  "handleRestorePackageJsonBackup h confirmation w =
     (let pkgPath = pathJoin [extensionRoot h, ''package.json''];
          backupPath = pathJoin [extensionRoot h, PACKAGE_JSON_BACKUP]
      in if \<not> existsSync w backupPath then w
         else if confirmation \<noteq> Some ''Restore'' then w
         else
           (case readFileSync w backupPath of
              None \<Rightarrow> w
            | Some backupContents \<Rightarrow> writeFileSync pkgPath backupContents w))"

text \<open>The ten actions of the two menus, each with the answers of the user.\<close>

datatype operation =
    SetFont "string option list"
  | EnableFont "string option list"
  | DisableFont
  | ReloadFont
  | ResetFont "string option"
  | ImportThemes "(string \<times> string option) list option" "string option"
  | RemoveThemes "nat list option" "string option"
  | ListThemes
  | RepairContributions
  | RestorePackageJson "string option"

fun runOperation :: "host \<Rightarrow> operation \<Rightarrow> world \<Rightarrow> world" where
  "runOperation h (SetFont answers) w = handleSetCustomFont h answers w"
| "runOperation h (EnableFont answers) w = handleEnableCustomFont h answers w"
| "runOperation h DisableFont w = handleDisableCustomFont h w"
| "runOperation h ReloadFont w = handleReloadFontConfiguration h w"
| "runOperation h (ResetFont confirmation) w = handleResetToDefaults h confirmation w"
| "runOperation h (ImportThemes uris action) w = handleImportThemes h uris action w"
| "runOperation h (RemoveThemes picked confirmation) w = handleRemoveThemes h picked confirmation w"
| "runOperation h ListThemes w = handleListThemes h w"
| "runOperation h RepairContributions w = handleRepairContributions h w"
| "runOperation h (RestorePackageJson confirmation) w = handleRestorePackageJsonBackup h confirmation w"

section \<open>A host for the examples\<close>

text \<open>
  The examples run the handlers with a small host: it writes a value as
  \<^verbatim>\<open>JSON.stringify(value, null, 2)\<close> writes it, and it parses the texts of the values
  listed in \<open>demoValues\<close>, which are the ones the examples meet.
\<close>

definition escapeJsonChar :: "char \<Rightarrow> string" where
  "escapeJsonChar c =
     (if c = dquote_char then [backslash_char, dquote_char]
      else if c = backslash_char then [backslash_char, backslash_char]
      else if c = newline_char then [backslash_char, CHR ''n'']
      else [c])"

definition quoteJson :: "string \<Rightarrow> string" where
  "quoteJson s = [dquote_char] @ concat (map escapeJsonChar s) @ [dquote_char]"

fun joinLines :: "string list \<Rightarrow> string" where
  "joinLines [] = []"
| "joinLines [l] = l"
| "joinLines (l # l' # ls) = l @ '','' @ [newline_char] @ joinLines (l' # ls)"

fun demoStringifyAt :: "nat \<Rightarrow> json \<Rightarrow> string" where
  "demoStringifyAt lvl JNull = ''null''"
| "demoStringifyAt lvl (JBool b) = (if b then ''true'' else ''false'')"
| "demoStringifyAt lvl (JNum n) = (if n < 0 then ''-'' @ showNat (nat (- n)) else showNat (nat n))"
| "demoStringifyAt lvl (JStr s) = quoteJson s"
| "demoStringifyAt lvl (JArr xs) =
     (if xs = [] then ''[]''
      else ''['' @ [newline_char] @
           joinLines (map (\<lambda>x. replicate (2 * Suc lvl) CHR '' '' @ demoStringifyAt (Suc lvl) x) xs) @
           [newline_char] @ replicate (2 * lvl) CHR '' '' @ '']'')"
| "demoStringifyAt lvl (JObj kvs) =
     (if kvs = [] then ''{}''
      else ''{'' @ [newline_char] @
           joinLines (map (\<lambda>kv. replicate (2 * Suc lvl) CHR '' '' @ quoteJson (fst kv) @ '': '' @
                                 demoStringifyAt (Suc lvl) (snd kv)) kvs) @
           [newline_char] @ replicate (2 * lvl) CHR '' '' @ ''}'')"

definition demoStringify :: "json \<Rightarrow> string" where
  "demoStringify v = demoStringifyAt 0 v"

definition unmanagedEntry :: json where
  "unmanagedEntry = JObj [(''id'', JStr ''other''), (''path'', JStr ''./other.json'')]"

definition managedEntry :: "string \<Rightarrow> string \<Rightarrow> json" where
  "managedEntry name file =
     JObj [(''id'', JStr (''sh1ffy.'' @ toSafeId name)),
           (''label'', JStr name),
           (''uiTheme'', JStr ''vs-dark''),
           (''path'', JStr (''./themes/'' @ file)),
           (''_sh1ffyTag'', JStr SH1FFY_THEME_TAG)]"

definition withThemes :: "json list \<Rightarrow> json" where
  "withThemes entries = JObj [(''contributes'', JObj [(''themes'', JArr entries)])]"

definition demoValues :: "json list" where
  "demoValues =
     [JObj [],
      JObj [(''name'', JStr (THEME_LABEL_PREFIX @ ''Dark'')), (''type'', JStr ''dark'')],
      withThemes [],
      withThemes [JNull, unmanagedEntry],
      withThemes [unmanagedEntry],
      withThemes [managedEntry (THEME_LABEL_PREFIX @ ''Dark'') ''Dark.json''],
      withThemes [unmanagedEntry, managedEntry (THEME_LABEL_PREFIX @ ''Dark'') ''Dark.json'']]"

definition demoParse :: "string \<Rightarrow> json option" where
  "demoParse s = find (\<lambda>v. demoStringify v = s) demoValues"

definition demoHost :: host where
  "demoHost = \<lparr>parseJSON = demoParse, stringifyJSON = demoStringify,
                appRoot = ''/app'', extensionRoot = ''/ext''\<rparr>"

definition emptyWorld :: world where
  "emptyWorld = \<lparr>files = [], workbenchFont = None, colorTheme = None, cachedWorkbenchPath = None\<rparr>"

text \<open>The states in which the examples start.\<close>

definition importWorld :: world where
  "importWorld = emptyWorld\<lparr>files :=
     [(''/ext/package.json'', ''{}''), (''/home/u/Dark.JSON'', ''{}''), (''/home/u/Dark.json'', ''{}'')]\<rparr>"

definition escapingName :: string where
  "escapingName = ''..'' @ [backslash_char] @ ''themes-x'' @ [backslash_char] @ ''f.json''"

definition escapeWorld :: world where
  "escapeWorld = emptyWorld\<lparr>files :=
     [(''/ext/package.json'', ''{}''),
      (''/ext/themes/'' @ escapingName, ''{}''),
      (''/ext/themes-x/f.json'', ''{}'')]\<rparr>"

definition installedWorld :: world where
  "installedWorld = emptyWorld\<lparr>files :=
     [(''/ext/package.json'', demoStringify (withThemes [unmanagedEntry])),
      (''/ext/package.json.sh1ffy.bak'', ''{}''),
      (''/ext/themes/Dark.json'',
         demoStringify (JObj [(''name'', JStr (THEME_LABEL_PREFIX @ ''Dark'')), (''type'', JStr ''dark'')]))]\<rparr>"

definition fontWorld :: world where
  "fontWorld = emptyWorld\<lparr>files :=
      [(''/app/out/vs/code/electron-sandbox/workbench/workbench.html'', ''<html><head></head></html>'')],
     workbenchFont := Some ''Fira Code''\<rparr>"

definition quotedFontWorld :: world where
  "quotedFontWorld = fontWorld\<lparr>workbenchFont := Some (''My '' @ [dquote_char] @ ''UI'' @ [dquote_char])\<rparr>"

definition enabledWorld :: world where
  "enabledWorld = handleEnableCustomFont demoHost [] fontWorld"

section \<open>Notions used in the statements\<close>

text \<open>A file name that \<^verbatim>\<open>path.join\<close> appends as it is, and what it is appended to.\<close>
definition plainName :: "string \<Rightarrow> bool" where
  "plainName name = (name \<noteq> [] \<and> CHR ''/'' \<notin> set name \<and> name \<noteq> ''.'' \<and> name \<noteq> ''..'')"

definition joinBase :: "string \<Rightarrow> string" where
  "joinBase r =
     (if r = [] then []
      else
        (let isAbsolute = (hd r = CHR ''/'');
             segs = normalizeSegments (\<not> isAbsolute) [] (splitSlash r)
         in (if isAbsolute then ''/'' else []) @ (if segs = [] then [] else joinSlash segs @ ''/'')))"

text \<open>The array \<^verbatim>\<open>contributes.themes\<close> of a package value, empty when there is none.\<close>

definition contributedThemes :: "json \<Rightarrow> json list" where
  "contributedThemes pkg =
     (case getProp pkg ''contributes'' of
        Inr (Some c) \<Rightarrow> (case getProp c ''themes'' of Inr (Some (JArr es)) \<Rightarrow> es | _ \<Rightarrow> [])
      | _ \<Rightarrow> [])"

definition nullEntryWorld :: world where
  "nullEntryWorld = emptyWorld\<lparr>files :=
     [(''/ext/package.json'', demoStringify (withThemes [JNull, unmanagedEntry]))]\<rparr>"

text \<open>The segments that \<^verbatim>\<open>normalizeString\<close> returns: first some \<^verbatim>\<open>..\<close>, then plain names.\<close>
fun normalSegments :: "bool \<Rightarrow> string list \<Rightarrow> bool" where
  "normalSegments allowAboveRoot [] = True"
| "normalSegments allowAboveRoot (s # ss) =
     (if s = ''..'' then allowAboveRoot \<and> normalSegments allowAboveRoot ss
      else plainName s \<and> list_all plainName ss)"

text \<open>
  The paths that the theme manager uses: package.json, its backup, and the files in the
  themes directory, which are the paths made of the path of the directory, a slash and a
  name without a slash.
\<close>

definition themeManagerPaths :: "host \<Rightarrow> string set" where
  "themeManagerPaths h =
     {pathJoin [extensionRoot h, ''package.json''], pathJoin [extensionRoot h, PACKAGE_JSON_BACKUP]} \<union>
     {p. childName (pathJoin [extensionRoot h, THEMES_DIR_RELATIVE]) p \<noteq> None}"

text \<open>No theme file that the themes directory lists has a backslash in its name.\<close>

definition backslashFreeThemes :: "host \<Rightarrow> world \<Rightarrow> bool" where
  "backslashFreeThemes h w =
     list_all (\<lambda>name. backslash_char \<notin> set name)
       (filter (\<lambda>name. suffix ''.json'' name)
          (readdirSync w (pathJoin [extensionRoot h, THEMES_DIR_RELATIVE])))"

fun isRemoveThemes :: "operation \<Rightarrow> bool" where
  "isRemoveThemes (RemoveThemes picked confirmation) = True"
| "isRemoveThemes other = False"

fun isFontOperation :: "operation \<Rightarrow> bool" where
  "isFontOperation (SetFont answers) = True"
| "isFontOperation (EnableFont answers) = True"
| "isFontOperation DisableFont = True"
| "isFontOperation ReloadFont = True"
| "isFontOperation (ResetFont confirmation) = True"
| "isFontOperation other = False"

text \<open>
  A later state of the font manager: every file other than the one at the path of
  workbench.html is as before, and \<^verbatim>\<open>getWorkbenchPath\<close> returns the same path.
\<close>

definition fontFrame :: "host \<Rightarrow> world \<Rightarrow> world \<Rightarrow> bool" where
  "fontFrame h w w' =
     ((\<forall>p. p \<noteq> fst (getWorkbenchPath h w) \<longrightarrow> readFileSync w' p = readFileSync w p) \<and>
      fst (getWorkbenchPath h w') = fst (getWorkbenchPath h w))"

text \<open>A state with an installed theme and a file in a directory beside the themes directory.\<close>

definition siblingWorld :: world where
  "siblingWorld = installedWorld\<lparr>files := files installedWorld @ [(''/ext/themes-x/f.json'', ''{}'')]\<rparr>"

text \<open>A state with a workbench.html at both paths and a configured font.\<close>

definition layoutsWorld :: world where
  "layoutsWorld = fontWorld\<lparr>files := files fontWorld @
     [(''/app/out/vs/code/electron-browser/workbench/workbench.html'', ''<html><head></head></html>'')]\<rparr>"

definition fullWorld :: world where
  "fullWorld = emptyWorld\<lparr>files :=
      [(''/app/out/vs/code/electron-sandbox/workbench/workbench.html'', ''<html><head></head></html>''),
       (''/ext/package.json'', ''{}''),
       (''/home/u/Dark.json'', ''{}'')],
     workbenchFont := Some ''Fira Code''\<rparr>"

text \<open>
  The start of a match of \<^verbatim>\<open>removeStyle\<close>: \<^verbatim>\<open><style\<close>, white space, and the attribute
  \<^verbatim>\<open>id="sh1ffy-tweaks"\<close>.
\<close>

definition styleOpeningAt :: "string \<Rightarrow> bool" where
  "styleOpeningAt s =
     (prefix ''<style'' s \<and>
      (let r = drop (length ''<style'') s
       in r \<noteq> [] \<and> isWhitespace (hd r) \<and>
          prefix (''id='' @ [dquote_char] @ STYLE_ID @ [dquote_char]) (dropWhile isWhitespace r)))"

fun hasStyleOpening :: "string \<Rightarrow> bool" where
  "hasStyleOpening [] = False"
| "hasStyleOpening (c # cs) = (styleOpeningAt (c # cs) \<or> hasStyleOpening cs)"

text \<open>The text after the first \<^verbatim>\<open></style>\<close>.\<close>

fun afterStyleClose :: "string \<Rightarrow> string option" where
  "afterStyleClose [] = None"
| "afterStyleClose (c # cs) =
     (if prefix ''</style>'' (c # cs) then Some (drop (length ''</style>'') (c # cs))
      else afterStyleClose cs)"

text \<open>Every double quote comes right after a backslash; \<open>prev\<close> is the character before the text.\<close>

fun noBareQuote :: "char \<Rightarrow> string \<Rightarrow> bool" where
  "noBareQuote prev [] = True"
| "noBareQuote prev (c # cs) = ((c = dquote_char \<longrightarrow> prev = backslash_char) \<and> noBareQuote c cs)"

text \<open>The attribute and the text after the tag name, as \<^verbatim>\<open>removeStyle\<close> looks for them.\<close>

definition idAttr :: string where
  "idAttr = ''id='' @ [dquote_char] @ STYLE_ID @ [dquote_char]"

definition afterStyleTag :: "string \<Rightarrow> string" where
  "afterStyleTag s = drop (length ''<style'') s"

text \<open>The opening tag without its closing angle bracket.\<close>

definition styleTagHead :: string where
  "styleTagHead = ''<style id='' @ [dquote_char] @ STYLE_ID @ [dquote_char]"

text \<open>The markup before and after the escaped font name, the tag left aside.\<close>

definition cssHead :: string where
  "cssHead = [newline_char] @ cssSelectors @ ''  font-family: '' @ [dquote_char]"

definition cssTail :: string where
  "cssTail = [dquote_char] @ '';'' @ [newline_char] @ ''}'' @ [newline_char] @ ''</style>''"

text \<open>A document with a style tag that has two spaces before its id.\<close>

definition spacedStyleHtml :: string where
  "spacedStyleHtml = ''<style  id='' @ [dquote_char] @ ''sh1ffy-tweaks'' @ [dquote_char] @ ''></style>''"

text \<open>
  The comment stripper read as a scanner that is in one of four places: in plain text, in a
  string literal (with its quote, and whether an odd number of backslashes comes right
  before the next character), in a line comment or in a block comment.
\<close>

datatype scanMode = InCode | InStr char bool | InLineC | InBlockC

fun scan :: "scanMode \<Rightarrow> string \<Rightarrow> string" where
  "scan m [] = []"
| "scan InLineC (c # cs) =
     (if c = newline_char \<or> c = return_char then c # scan InCode cs else scan InLineC cs)"
| "scan InBlockC [c] = []"
| "scan InBlockC (c # d # ds) =
     (if c = CHR ''*'' \<and> d = CHR ''/'' then scan InCode ds else scan InBlockC (d # ds))"
| "scan InCode [c] = [c]"
| "scan InCode (c # d # ds) =
     (if c = CHR ''/'' \<and> d = CHR ''/'' then scan InLineC ds
      else if c = CHR ''/'' \<and> d = CHR ''*'' then scan InBlockC ds
      else c # scan (if c = dquote_char \<or> c = squote_char then InStr c False else InCode) (d # ds))"
| "scan (InStr q esc) (c # cs) =
     c # scan (if c = q \<and> \<not> esc then InCode else InStr q (c = backslash_char \<and> \<not> esc)) cs"

text \<open>The place of the scanner in a state of the loop, before index \<open>i\<close>.\<close>

definition modeOf :: "string \<Rightarrow> nat \<Rightarrow> scanState \<Rightarrow> scanMode" where
  "modeOf input i s =
     (if inLineComment s then InLineC
      else if inBlockComment s then InBlockC
      else if inString s then InStr (the (stringChar s)) (odd (countBackslashes input i))
      else InCode)"

definition stateOk :: "scanState \<Rightarrow> bool" where
  "stateOk s =
     ((inLineComment s \<longrightarrow> \<not> inBlockComment s \<and> \<not> inString s) \<and>
      (inBlockComment s \<longrightarrow> \<not> inString s) \<and>
      (inString s \<longrightarrow> stringChar s = Some dquote_char \<or> stringChar s = Some squote_char))"

text \<open>
  A reading of an input as a sequence of pieces: a character of plain text, a string literal
  (its quote, its body, and whether the closing quote is there), a line comment (the text
  after \<^verbatim>\<open>//\<close>), a block comment (the text after \<^verbatim>\<open>/*\<close>, and whether
  \<^verbatim>\<open>*/\<close> closes it).
\<close>

datatype segment =
    Plain char
  | StringLit char string bool
  | LineComment string
  | BlockComment string bool

fun sourceOf :: "segment \<Rightarrow> string" where
  "sourceOf (Plain c) = [c]"
| "sourceOf (StringLit q body closed) = q # body @ (if closed then [q] else [])"
| "sourceOf (LineComment body) = ''//'' @ body"
| "sourceOf (BlockComment body closed) = ''/*'' @ body @ (if closed then ''*/'' else [])"

fun isComment :: "segment \<Rightarrow> bool" where
  "isComment (LineComment body) = True"
| "isComment (BlockComment body closed) = True"
| "isComment seg = False"

definition keptOf :: "segment \<Rightarrow> string" where
  "keptOf seg = (if isComment seg then [] else sourceOf seg)"

definition sourceText :: "segment list \<Rightarrow> string" where
  "sourceText segs = concat (map sourceOf segs)"

definition keptText :: "segment list \<Rightarrow> string" where
  "keptText segs = concat (map keptOf segs)"

text \<open>The number of backslashes at the end of a text, and whether the character at an
  index of a string body is escaped: an odd number of backslashes comes right before it.\<close>

definition trailingBackslashes :: "string \<Rightarrow> nat" where
  "trailingBackslashes s = length (takeWhile (\<lambda>c. c = backslash_char) (rev s))"

definition escapedAt :: "string \<Rightarrow> nat \<Rightarrow> bool" where
  "escapedAt body i = odd (trailingBackslashes (take i body))"

text \<open>
  The pieces are the ones of the input when: a plain character is no quote, and a plain
  slash is not followed by a slash or a star; a string literal starts with a double or a
  single quote, every occurrence of that quote in its body is escaped, the closing quote is
  not escaped, and a literal with no closing quote is the last piece; a line comment
  contains neither a line feed nor a carriage return and is followed by one of them or by the
  end of the input; a block comment contains no \<^verbatim>\<open>*/\<close>, and one that is not
  closed is the last piece.
\<close>

fun wellFormed :: "segment list \<Rightarrow> bool" where
  "wellFormed [] = True"
| "wellFormed (Plain c # rest) =
     (c \<noteq> dquote_char \<and> c \<noteq> squote_char \<and>
      (c = CHR ''/'' \<longrightarrow> \<not> prefix ''/'' (sourceText rest) \<and> \<not> prefix ''*'' (sourceText rest)) \<and>
      wellFormed rest)"
| "wellFormed (StringLit q body closed # rest) =
     ((q = dquote_char \<or> q = squote_char) \<and>
      list_all (\<lambda>i. body ! i = q \<longrightarrow> escapedAt body i) [0..<length body] \<and>
      (if closed then \<not> escapedAt body (length body) else rest = []) \<and>
      wellFormed rest)"
| "wellFormed (LineComment body # rest) =
     (newline_char \<notin> set body \<and> return_char \<notin> set body \<and>
      (rest = [] \<or> hd rest = Plain newline_char \<or> hd rest = Plain return_char) \<and>
      wellFormed rest)"
| "wellFormed (BlockComment body closed # rest) =
     (\<not> includes_str body ''*/'' \<and> (closed \<or> rest = []) \<and> wellFormed rest)"

text \<open>
  Cutting an input at the end of a piece: the body of a string literal runs up to the first
  quote that is not escaped, the body of a block comment up to the first
  \<^verbatim>\<open>*/\<close>, the body of a line comment up to the first line feed or carriage return.
\<close>

fun splitString :: "char \<Rightarrow> bool \<Rightarrow> string \<Rightarrow> string \<times> bool \<times> string" where
  "splitString q esc [] = ([], False, [])"
| "splitString q esc (c # cs) =
     (if c = q \<and> \<not> esc then ([], True, cs)
      else (case splitString q (c = backslash_char \<and> \<not> esc) cs of
              (body, closed, rest) \<Rightarrow> (c # body, closed, rest)))"

fun splitBlock :: "string \<Rightarrow> string \<times> bool \<times> string" where
  "splitBlock [] = ([], False, [])"
| "splitBlock (c # cs) =
     (if prefix ''*/'' (c # cs) then ([], True, tl cs)
      else (case splitBlock cs of (body, closed, rest) \<Rightarrow> (c # body, closed, rest)))"

definition notEol :: "char \<Rightarrow> bool" where
  "notEol c = (c \<noteq> newline_char \<and> c \<noteq> return_char)"

text \<open>Two inputs for the examples, as pieces: a theme with comments, with comment
  openers and an escaped quote inside a string literal, and the same with no comment.\<close>

definition commentedTheme :: "segment list" where
  "commentedTheme =
     [Plain (CHR ''{''),
      StringLit dquote_char (''a//b'' @ [backslash_char, dquote_char] @ ''/*c*/'') True,
      Plain (CHR '':''), Plain (CHR ''1''), Plain (CHR '',''),
      LineComment '' note'',
      Plain newline_char,
      StringLit squote_char ''k'' True,
      Plain (CHR '':''), Plain (CHR ''2''), Plain (CHR ''/''), Plain (CHR ''3''),
      BlockComment (''two'' @ [newline_char] @ ''lines *'') True,
      Plain (CHR ''}''),
      LineComment ''end'']"

definition plainTheme :: "segment list" where
  "plainTheme = filter (\<lambda>seg. \<not> isComment seg) commentedTheme"

section \<open>Facts about string search\<close>

lemma indexOf_Some_iff:
  "indexOf needle hay = Some k \<longleftrightarrow>
     k \<le> length hay \<and> prefix needle (drop k hay) \<and> (\<forall>j<k. \<not> prefix needle (drop j hay))"
proof (induction hay arbitrary: k)
  case Nil
  then show ?case by auto
next
  case (Cons c cs)
  show ?case
  proof (cases "prefix needle (c # cs)")
    case True
    then show ?thesis
      by (cases k) auto
  next
    case False
    show ?thesis
    proof (cases k)
      case 0
      with False show ?thesis by simp
    next
      case (Suc k')
      have "(\<forall>j<Suc k'. \<not> prefix needle (drop j (c # cs))) \<longleftrightarrow>
            (\<forall>j<k'. \<not> prefix needle (drop j cs))"
        using False by (auto simp: less_Suc_eq_0_disj)
      with False Suc Cons.IH [of k'] show ?thesis
        by auto
    qed
  qed
qed

lemma all_le_Suc_shift: "(\<forall>j\<le>Suc n. P j) \<longleftrightarrow> P 0 \<and> (\<forall>j\<le>n. P (Suc j))"
proof
  assume "\<forall>j\<le>Suc n. P j"
  then show "P 0 \<and> (\<forall>j\<le>n. P (Suc j))" by auto
next
  assume h: "P 0 \<and> (\<forall>j\<le>n. P (Suc j))"
  show "\<forall>j\<le>Suc n. P j"
  proof (intro allI impI)
    fix j assume "j \<le> Suc n"
    then show "P j" using h by (cases j) auto
  qed
qed

lemma indexOf_None_iff:
  "indexOf needle hay = None \<longleftrightarrow> (\<forall>j\<le>length hay. \<not> prefix needle (drop j hay))"
proof (induction hay)
  case Nil
  then show ?case by auto
next
  case (Cons c cs)
  have "(\<forall>j\<le>length (c # cs). \<not> prefix needle (drop j (c # cs))) \<longleftrightarrow>
        \<not> prefix needle (c # cs) \<and> (\<forall>j\<le>length cs. \<not> prefix needle (drop j cs))"
    using all_le_Suc_shift [of "length cs" "\<lambda>j. \<not> prefix needle (drop j (c # cs))"] by simp
  with Cons show ?case by auto
qed

lemma indexOf_None_sublist:
  "indexOf needle hay = None \<longleftrightarrow> \<not> sublist needle hay"
proof -
  have "sublist needle hay \<longleftrightarrow> (\<exists>j\<le>length hay. prefix needle (drop j hay))"
  proof
    assume "sublist needle hay"
    then obtain ps ss where "hay = ps @ needle @ ss"
      by (auto simp: sublist_def)
    then have "length ps \<le> length hay" "prefix needle (drop (length ps) hay)"
      by auto
    then show "\<exists>j\<le>length hay. prefix needle (drop j hay)" by blast
  next
    assume "\<exists>j\<le>length hay. prefix needle (drop j hay)"
    then obtain j ss where "drop j hay = needle @ ss"
      by (auto simp: prefix_def)
    then have "hay = take j hay @ needle @ ss"
      by (metis append_take_drop_id)
    then show "sublist needle hay"
      by (auto simp: sublist_def)
  qed
  then show ?thesis
    by (auto simp: indexOf_None_iff)
qed

section \<open>Facts about paths\<close>

lemma splitSlash_no_slash: "CHR ''/'' \<notin> set name \<Longrightarrow> splitSlash name = [name]"
  by (induction name) auto

lemma splitSlash_not_Nil: "splitSlash r \<noteq> []"
  by (induction r) (auto split: list.splits)

lemma splitSlash_append_name:
  "CHR ''/'' \<notin> set name \<Longrightarrow> splitSlash (r @ CHR ''/'' # name) = splitSlash r @ [name]"
  by (induction r) (auto simp: splitSlash_no_slash splitSlash_not_Nil split: list.splits)

lemma last_plainName: "plainName name \<Longrightarrow> last name \<noteq> CHR ''/''"
  by (metis plainName_def last_in_set)

lemma hd_plainName: "plainName name \<Longrightarrow> hd name \<noteq> CHR ''/''"
  by (metis plainName_def hd_in_set)

lemma normalizeSegments_snoc:
  "plainName name \<Longrightarrow>
     normalizeSegments a acc (segs @ [name]) = normalizeSegments a acc segs @ [name]"
  by (induction segs arbitrary: acc) (auto simp: plainName_def split: list.splits)

lemma joinSlash_snoc:
  "joinSlash (xs @ [name]) = (if xs = [] then name else joinSlash xs @ ''/'' @ name)"
  by (induction xs rule: joinSlash.induct) auto

lemma pathJoin_plain:
  assumes "plainName name"
  shows "pathJoin [r, name] = joinBase r @ name"
proof (cases "r = []")
  case True
  have "normalize name = name"
    using assms last_plainName [OF assms] hd_plainName [OF assms]
    by (auto simp: normalize_def plainName_def splitSlash_no_slash Let_def)
  with True assms show ?thesis
    by (simp add: pathJoin_def joinBase_def plainName_def)
next
  case False
  let ?p = "r @ ''/'' @ name"
  have p: "?p \<noteq> []" "hd ?p = hd r" "last ?p = last name" "last name \<noteq> CHR ''/''"
    using False assms last_plainName [OF assms] by (auto simp: plainName_def)
  have segs: "normalizeSegments a [] (splitSlash ?p) = normalizeSegments a [] (splitSlash r) @ [name]" for a
    using assms by (simp add: splitSlash_append_name normalizeSegments_snoc plainName_def)
  have "normalize ?p = joinBase r @ name"
    using False p assms
    unfolding normalize_def joinBase_def Let_def segs joinSlash_snoc
    by (auto simp: plainName_def)
  with False assms show ?thesis
    by (simp add: pathJoin_def plainName_def)
qed

lemma package_paths:
  "pathJoin [r, ''package.json''] = joinBase r @ ''package.json''"
  "pathJoin [r, PACKAGE_JSON_BACKUP] = joinBase r @ ''package.json.sh1ffy.bak''"
  "pathJoin [r, THEMES_DIR_RELATIVE] = joinBase r @ ''themes''"
  by (simp_all add: pathJoin_plain plainName_def PACKAGE_JSON_BACKUP_def THEMES_DIR_RELATIVE_def)

lemma backup_path_differs:
  "pathJoin [r, PACKAGE_JSON_BACKUP] \<noteq> pathJoin [r, ''package.json'']"
  by (simp add: package_paths)

section \<open>Facts about the file system\<close>

lemma read_write:
  "readFileSync (writeFileSync q t w) p = (if p = q then Some t else readFileSync w p)"
  by (simp add: readFileSync_def writeFileSync_def update_conv')

lemma read_unlink:
  "readFileSync (unlinkSync q w) p = (if p = q then None else readFileSync w p)"
  by (simp add: readFileSync_def unlinkSync_def delete_conv')

lemma exists_read: "existsSync w p \<longleftrightarrow> readFileSync w p \<noteq> None"
  by (simp add: existsSync_def readFileSync_def)

lemma write_same: "readFileSync w q = Some t \<Longrightarrow> writeFileSync q t w = w"
  by (simp add: readFileSync_def writeFileSync_def update_triv)

lemma read_copy:
  "readFileSync (copyFileSync src dst w) p =
     (if p = dst \<and> readFileSync w src \<noteq> None then readFileSync w src else readFileSync w p)"
  by (auto simp: copyFileSync_def read_write split: option.splits)

lemma read_writePackageJson:
  "readFileSync (writePackageJson h pkg w) p =
     (if p = pathJoin [extensionRoot h, ''package.json''] then Some (stringifyJSON h pkg)
      else if p = pathJoin [extensionRoot h, PACKAGE_JSON_BACKUP] \<and>
              readFileSync w p = None \<and>
              readFileSync w (pathJoin [extensionRoot h, ''package.json'']) \<noteq> None
           then readFileSync w (pathJoin [extensionRoot h, ''package.json''])
      else readFileSync w p)"
  by (auto simp: writePackageJson_def Let_def read_write read_copy exists_read)

section \<open>Facts about the contribution entries\<close>

lemma not_keptEntry_contributionOf: "\<not> keptEntry (contributionOf t)"
  by (simp add: keptEntry_def contributionOf_def)

lemma filter_keptEntry_regenerated: "filter keptEntry (map contributionOf ts) = []"
  by (simp add: filter_empty_conv not_keptEntry_contributionOf)

lemma getProp_falsy: "\<not> truthy x \<Longrightarrow> getProp x key = Inl TypeError \<or> getProp x key = Inr None"
  by (cases x) auto

lemma map_of_update_same: "map_of (AList.update k v al) k = Some v"
  by (simp add: update_conv')

lemma syncContributions_idem:
  assumes "syncContributions pkg ts = Inr pkg'"
  shows "syncContributions pkg' ts = Inr pkg'"
proof (cases pkg)
  case (JArr xs)
  with assms show ?thesis by (auto simp: syncContributions_def)
next
  case (JObj props)
  let ?c = "if truthyOpt (map_of props ''contributes'') then the (map_of props ''contributes'') else JObj []"
  show ?thesis
  proof (cases ?c)
    case (JArr cs)
    with assms JObj have "pkg' = JObj (AList.update ''contributes'' (JArr cs) props)"
      by (auto simp: syncContributions_def Let_def split: if_splits)
    then show ?thesis
      by (simp add: syncContributions_def Let_def map_of_update_same truthyOpt_def)
  next
    case c: (JObj cprops)
    let ?es = "case map_of cprops ''themes'' of Some (JArr es) \<Rightarrow> es | _ \<Rightarrow> []"
    let ?new = "JArr (filter keptEntry ?es @ map contributionOf ts)"
    from assms JObj c have "pkg' = JObj (AList.update ''contributes''
        (JObj (AList.update ''themes'' ?new cprops)) props)"
      by (auto simp: syncContributions_def Let_def split: if_splits)
    then show ?thesis
      by (simp add: syncContributions_def Let_def map_of_update_same truthyOpt_def
          filter_keptEntry_regenerated)
  qed (use assms JObj in \<open>auto simp: syncContributions_def Let_def split: if_splits\<close>)
qed (use assms in \<open>auto simp: syncContributions_def\<close>)

lemma syncContributions_themes:
  assumes "syncContributions (JObj props) ts = Inr pkg'"
    and "\<forall>cs. map_of props ''contributes'' \<noteq> Some (JArr cs)"
  shows "contributedThemes pkg' =
           filter keptEntry (contributedThemes (JObj props)) @ map contributionOf ts"
proof -
  let ?c = "if truthyOpt (map_of props ''contributes'') then the (map_of props ''contributes'') else JObj []"
  show ?thesis
  proof (cases ?c)
    case c: (JObj cprops)
    let ?es = "case map_of cprops ''themes'' of Some (JArr es) \<Rightarrow> es | _ \<Rightarrow> []"
    from assms c have pkg': "pkg' = JObj (AList.update ''contributes''
        (JObj (AList.update ''themes'' (JArr (filter keptEntry ?es @ map contributionOf ts)) cprops)) props)"
      by (auto simp: syncContributions_def Let_def split: if_splits)
    have old: "contributedThemes (JObj props) = ?es"
    proof (cases "truthyOpt (map_of props ''contributes'')")
      case True
      with c show ?thesis
        by (auto simp: contributedThemes_def truthyOpt_def split: option.splits json.splits)
    next
      case False
      with c have "cprops = []" by simp
      moreover from False have "contributedThemes (JObj props) = []"
        using getProp_falsy [of _ "''themes''"]
        by (fastforce simp: contributedThemes_def truthyOpt_def split: option.splits)
      ultimately show ?thesis by simp
    qed
    show ?thesis
      unfolding old pkg' by (simp add: contributedThemes_def map_of_update_same)
  next
    case (JArr cs)
    with assms(2) show ?thesis
      by (auto simp: truthyOpt_def split: if_splits option.splits)
  qed (use assms in \<open>auto simp: syncContributions_def Let_def split: if_splits\<close>)
qed

lemma exists_backup_after_write:
  assumes "readFileSync w (pathJoin [extensionRoot h, ''package.json'']) \<noteq> None"
  shows "existsSync (writePackageJson h pkg w) (pathJoin [extensionRoot h, PACKAGE_JSON_BACKUP])"
  using assms backup_path_differs [of "extensionRoot h"]
  by (auto simp: exists_read read_writePackageJson)

lemma writePackageJson_again:
  assumes "readFileSync w (pathJoin [extensionRoot h, ''package.json'']) \<noteq> None"
  shows "writePackageJson h pkg (writePackageJson h pkg w) = writePackageJson h pkg w"
proof -
  let ?w1 = "writePackageJson h pkg w"
  have "existsSync ?w1 (pathJoin [extensionRoot h, PACKAGE_JSON_BACKUP])"
    using assms by (rule exists_backup_after_write)
  moreover have "readFileSync ?w1 (pathJoin [extensionRoot h, ''package.json'']) = Some (stringifyJSON h pkg)"
    by (simp add: read_writePackageJson)
  ultimately show ?thesis
    by (simp add: writePackageJson_def [of h pkg ?w1] Let_def write_same)
qed

section \<open>Facts about the style fragment and the workbench file\<close>

lemma dropWhile_ws_selectors: "dropWhile isWhitespace (newline_char # cssSelectors @ rest) = cssSelectors @ rest"
  by (simp add: cssSelectors_def isWhitespace_def newline_char_def)

lemma trim_cssTemplate:
  "trim (cssTemplate f) =
     cssSelectors @ ''  font-family: '' @ [dquote_char] @ f @ [dquote_char] @ '';'' @ [newline_char] @ ''}''"
proof -
  have a: "dropWhile isWhitespace (cssTemplate f) =
      cssSelectors @ ''  font-family: '' @ [dquote_char] @ f @ [dquote_char] @ '';'' @ [newline_char] @ ''}'' @ [newline_char]"
    using dropWhile_ws_selectors by (simp add: cssTemplate_def newline_char_def)
  have b: "dropWhile isWhitespace (rev (xs @ ''}'' @ [newline_char])) = rev (xs @ ''}'')" for xs
    by (simp add: isWhitespace_def newline_char_def)
  show ?thesis
    unfolding trim_def a
    using b [of "cssSelectors @ ''  font-family: '' @ [dquote_char] @ f @ [dquote_char] @ '';'' @ [newline_char]"]
    by simp
qed

lemma getStyleMarkup_text:
  "getStyleMarkup font =
     STYLE_TAG_OPEN @ [newline_char] @ cssSelectors @
     ''  font-family: '' @ [dquote_char] @ escapeQuotes font @ [dquote_char] @ '';'' @ [newline_char] @
     ''}'' @ [newline_char] @ ''</style>''"
  by (simp add: getStyleMarkup_def Let_def trim_cssTemplate STYLE_TAG_OPEN_def)

lemma injectStyle_shape:
  "\<exists>pre post lead. html = pre @ post \<and> (lead = [] \<or> lead = [newline_char]) \<and>
     injectStyle html markup = pre @ lead @ markup @ [newline_char] @ post"
proof (cases "indexOf ''</head>'' html")
  case None
  then have "injectStyle html markup = html @ [newline_char] @ markup @ [newline_char] @ []"
    by (simp add: injectStyle_def)
  then show ?thesis
    by (metis append_Nil2)
next
  case (Some k)
  then have "injectStyle html markup = take k html @ [] @ markup @ [newline_char] @ drop k html"
    by (simp add: injectStyle_def)
  then show ?thesis
    by (metis append_take_drop_id)
qed

lemma normalize_not_Nil: "normalize p \<noteq> []"
  by (simp add: normalize_def Let_def)

lemma pathJoin_not_Nil: "pathJoin args \<noteq> []"
  by (simp add: pathJoin_def Let_def normalize_not_Nil)

lemma getWorkbenchPath_keeps:
  "files (snd (getWorkbenchPath h w)) = files w"
  "workbenchFont (snd (getWorkbenchPath h w)) = workbenchFont w"
  "colorTheme (snd (getWorkbenchPath h w)) = colorTheme w"
  by (auto simp: getWorkbenchPath_def Let_def split: option.splits)

lemma getWorkbenchPath_cached:
  "getWorkbenchPath h (snd (getWorkbenchPath h w)) = getWorkbenchPath h w"
  by (auto simp: getWorkbenchPath_def Let_def pathJoin_not_Nil split: option.splits)

lemma readFileSync_cong: "files w' = files w \<Longrightarrow> readFileSync w' p = readFileSync w p"
  by (simp add: readFileSync_def)

lemma getWorkbenchHtml_eq:
  "getWorkbenchHtml h w = (readFileSync w (fst (getWorkbenchPath h w)), snd (getWorkbenchPath h w))"
  by (simp add: getWorkbenchHtml_def split_beta readFileSync_def getWorkbenchPath_keeps)

lemma saveWorkbenchHtml_after:
  "saveWorkbenchHtml h html (snd (getWorkbenchPath h w)) =
     writeFileSync (fst (getWorkbenchPath h w)) html (snd (getWorkbenchPath h w))"
  by (simp add: saveWorkbenchHtml_def split_beta getWorkbenchPath_cached)

section \<open>Facts about normalized paths\<close>

lemma not_plain_up: "\<not> plainName ''..''"
  by (simp add: plainName_def)

lemma normalSegments_snoc_plain:
  "normalSegments a xs \<Longrightarrow> plainName s \<Longrightarrow> normalSegments a (xs @ [s])"
  by (induction xs) (auto simp: not_plain_up)

lemma normalSegments_last_up:
  "normalSegments a (xs @ [''..'']) \<Longrightarrow> a \<and> (\<forall>s\<in>set xs. s = ''..'')"
proof (induction xs)
  case Nil
  then show ?case by simp
next
  case (Cons x xs)
  show ?case
  proof (cases "x = ''..''")
    case True
    with Cons.prems have "a \<and> normalSegments a (xs @ [''..''])" by auto
    then have "normalSegments a (xs @ [''..''])" by (rule conjunct2)
    from Cons.IH [OF this] True show ?thesis by simp
  next
    case False
    with Cons.prems have "list_all plainName (xs @ [''..''])" by simp
    then have "plainName ''..''" by simp
    with not_plain_up show ?thesis by simp
  qed
qed

lemma normalSegments_prefix: "normalSegments a (xs @ ys) \<Longrightarrow> normalSegments a xs"
  by (induction xs) (auto split: if_splits)

lemma normalSegments_plain_at:
  "normalSegments a (xs @ y # ys) \<Longrightarrow> y \<noteq> ''..'' \<Longrightarrow> plainName y"
  by (induction xs) (auto split: if_splits)

lemma normalSegments_all_up: "a \<Longrightarrow> \<forall>s\<in>set xs. s = ''..'' \<Longrightarrow> normalSegments a xs"
  by (induction xs) auto


lemma normalizeSegments_normal:
  assumes "normalSegments a (rev acc)" and "\<forall>s\<in>set segs. CHR ''/'' \<notin> set s"
  shows "normalSegments a (normalizeSegments a acc segs)"
  using assms
proof (induction segs arbitrary: acc)
  case Nil
  then show ?case by simp
next
  case (Cons seg segs)
  from Cons.prems(2) have rest: "\<forall>s\<in>set segs. CHR ''/'' \<notin> set s" and seg: "CHR ''/'' \<notin> set seg"
    by auto
  show ?case
  proof (cases "seg = [] \<or> seg = ''.''")
    case True
    with Cons.IH [OF Cons.prems(1) rest] show ?thesis by auto
  next
    case False
    show ?thesis
    proof (cases "seg = ''..''")
      case up: True
      show ?thesis
      proof (cases acc)
        case Nil
        have "normalSegments a (rev (if a then [''..''] else []))"
          by simp
        from Cons.IH [OF this rest] up Nil show ?thesis by simp
      next
        case (Cons b bs)
        show ?thesis
        proof (cases "b = ''..''")
          case True
          with Cons Cons.prems(1) have "normalSegments a (rev bs @ [''..''])" by simp
          from normalSegments_last_up [OF this] have a and "\<forall>s\<in>set bs. s = ''..''"
            by auto
          then have "normalSegments a (rev (''..'' # acc))"
            using Cons True by (intro normalSegments_all_up) auto
          from Cons.IH [OF this rest] \<open>a\<close> up Cons True show ?thesis by simp
        next
          case False
          from Cons.prems(1) Cons have "normalSegments a (rev bs @ [b])" by simp
          then have "normalSegments a (rev bs)" by (rule normalSegments_prefix)
          from Cons.IH [OF this rest] up Cons False show ?thesis by simp
        qed
      qed
    next
      case plain: False
      with False seg have "plainName seg" by (simp add: plainName_def)
      with Cons.prems(1) have "normalSegments a (rev (seg # acc))"
        by (simp add: normalSegments_snoc_plain)
      from Cons.IH [OF this rest] False plain show ?thesis by simp
    qed
  qed
qed

lemma normalizeSegments_fixed:
  assumes "normalSegments a (rev acc @ segs)"
  shows "normalizeSegments a acc segs = rev acc @ segs"
  using assms
proof (induction segs arbitrary: acc)
  case Nil
  then show ?case by simp
next
  case (Cons seg segs)
  have next_normal: "normalSegments a (rev (seg # acc) @ segs)"
    using Cons.prems by simp
  show ?case
  proof (cases "seg = ''..''")
    case True
    with Cons.prems have "normalSegments a ((rev acc @ [''..'']) @ segs)" by simp
    then have "normalSegments a (rev acc @ [''..''])" by (rule normalSegments_prefix)
    from normalSegments_last_up [OF this] have a and all: "\<forall>s\<in>set acc. s = ''..''"
      by auto
    show ?thesis
    proof (cases acc)
      case Nil
      with \<open>a\<close> True Cons.IH [OF next_normal] show ?thesis by simp
    next
      case (Cons b bs)
      with all have "b = ''..''" by simp
      with \<open>a\<close> True Cons Cons.IH [OF next_normal] show ?thesis by simp
    qed
  next
    case False
    with Cons.prems have "plainName seg"
      by (auto intro: normalSegments_plain_at)
    with False Cons.IH [OF next_normal] show ?thesis
      by (auto simp: plainName_def)
  qed
qed



lemma splitSlash_elems: "s \<in> set (splitSlash r) \<Longrightarrow> CHR ''/'' \<notin> set s"
proof (induction r arbitrary: s)
  case Nil
  then show ?case by simp
next
  case (Cons c cs)
  then show ?case
    by (cases "splitSlash cs") (auto split: if_splits)
qed

lemma normalSegments_elem:
  "normalSegments a xs \<Longrightarrow> s \<in> set xs \<Longrightarrow> s = ''..'' \<or> plainName s"
  by (induction xs) (auto simp: list_all_iff split: if_splits)

lemma normalSegments_no_slash:
  "normalSegments a xs \<Longrightarrow> s \<in> set xs \<Longrightarrow> s \<noteq> [] \<and> CHR ''/'' \<notin> set s"
  using normalSegments_elem [of a xs s] by (auto simp: plainName_def)

lemma splitSlash_joinSlash:
  "xs \<noteq> [] \<Longrightarrow> \<forall>s\<in>set xs. CHR ''/'' \<notin> set s \<Longrightarrow> splitSlash (joinSlash xs) = xs"
proof (induction xs rule: joinSlash.induct)
  case 1
  then show ?case by simp
next
  case (2 seg)
  then show ?case by (simp add: splitSlash_no_slash)
next
  case (3 seg seg' segs)
  then have "splitSlash (joinSlash (seg' # segs)) = seg' # segs" by simp
  moreover have "CHR ''/'' \<notin> set seg" using 3 by simp
  ultimately show ?case
    using splitSlash_append_name [of "[]"]
    by (induction seg) (auto simp: splitSlash_no_slash)
qed

lemma hd_joinSlash:
  "xs \<noteq> [] \<Longrightarrow> hd xs \<noteq> [] \<Longrightarrow> hd (joinSlash xs) = hd (hd xs)"
  by (induction xs rule: joinSlash.induct) auto

lemma joinSlash_not_Nil: "xs \<noteq> [] \<Longrightarrow> hd xs \<noteq> [] \<Longrightarrow> joinSlash xs \<noteq> []"
  by (induction xs rule: joinSlash.induct) auto

text \<open>A path of the form that \<open>pathJoin\<close> returns for a plain last name.\<close>

lemma joinBase_of_normal:
  assumes xs: "xs \<noteq> []" "normalSegments (\<not> absolute) xs"
  shows "joinBase ((if absolute then ''/'' else []) @ joinSlash xs) =
         (if absolute then ''/'' else []) @ joinSlash xs @ ''/''"
proof -
  let ?T = "(if absolute then ''/'' else []) @ joinSlash xs"
  have elems: "\<forall>s\<in>set xs. s \<noteq> [] \<and> CHR ''/'' \<notin> set s"
    using xs(2) normalSegments_no_slash by blast
  then have hd_xs: "hd xs \<noteq> []" "CHR ''/'' \<notin> set (hd xs)"
    using xs(1) by (cases xs; simp)+
  then have hd_hd: "hd (hd xs) \<noteq> CHR ''/''"
    by (metis hd_in_set)
  have j: "joinSlash xs \<noteq> []" using xs(1) hd_xs by (simp add: joinSlash_not_Nil)
  have T: "?T \<noteq> []" using j by simp
  have abs: "(hd ?T = CHR ''/'') = absolute"
    using j hd_hd hd_joinSlash [OF xs(1) hd_xs(1)] by auto
  have split: "splitSlash (joinSlash xs) = xs"
    using xs(1) elems by (simp add: splitSlash_joinSlash)
  have "normalizeSegments (\<not> absolute) [] (splitSlash ?T) = xs"
    using split normalizeSegments_fixed [of "\<not> absolute" "[]" xs] xs(2)
    by auto
  then show ?thesis
    unfolding joinBase_def Let_def abs using T xs(1) by simp
qed

lemma pathJoin_as_segments:
  assumes "plainName d"
  shows "\<exists>absolute xs. xs \<noteq> [] \<and> normalSegments (\<not> absolute) xs \<and>
           pathJoin [r, d] = (if absolute then ''/'' else []) @ joinSlash xs"
proof (cases "r = []")
  case True
  have "d \<noteq> ''..''" using assms not_plain_up by auto
  then have "normalSegments True [d]" using assms by simp
  moreover have "pathJoin [r, d] = joinSlash [d]"
    using True assms by (simp add: pathJoin_plain joinBase_def)
  ultimately show ?thesis
    by (intro exI [of _ False] exI [of _ "[d]"]) simp
next
  case False
  let ?abs = "hd r = CHR ''/''"
  let ?segs = "normalizeSegments (\<not> ?abs) [] (splitSlash r)"
  have "normalSegments (\<not> ?abs) ?segs"
    by (rule normalizeSegments_normal) (auto dest: splitSlash_elems)
  then have n: "normalSegments (\<not> ?abs) (?segs @ [d])"
    using assms by (rule normalSegments_snoc_plain)
  have "pathJoin [r, d] = (if ?abs then ''/'' else []) @ joinSlash (?segs @ [d])"
    using False assms by (simp add: pathJoin_plain joinBase_def Let_def joinSlash_snoc)
  with n show ?thesis
    by (intro exI [of _ ?abs] exI [of _ "?segs @ [d]"]) simp
qed

lemma pathJoin_child:
  assumes "plainName d" "plainName name"
  shows "pathJoin [pathJoin [r, d], name] = pathJoin [r, d] @ ''/'' @ name"
proof -
  from pathJoin_as_segments [OF assms(1), of r] obtain absolute xs where
    xs: "xs \<noteq> []" "normalSegments (\<not> absolute) xs"
    and T: "pathJoin [r, d] = (if absolute then ''/'' else []) @ joinSlash xs"
    by blast
  have "pathJoin [pathJoin [r, d], name] = joinBase (pathJoin [r, d]) @ name"
    using assms(2) by (rule pathJoin_plain)
  also have "joinBase (pathJoin [r, d]) = pathJoin [r, d] @ ''/''"
    unfolding T using joinBase_of_normal [OF xs] by simp
  finally show ?thesis by simp
qed



lemma basename_no_slash: "CHR ''/'' \<notin> set (basename p)"
  by (auto simp: basename_def dest: set_takeWhileD)

lemma basename_of_name: "CHR ''/'' \<notin> set name \<Longrightarrow> basename name = name"
proof -
  assume a: "CHR ''/'' \<notin> set name"
  have d: "dropWhile (\<lambda>c. c = CHR ''/'') (rev name) = rev name"
    using a by (cases "rev name") auto
  have "\<forall>x\<in>set (rev name). x \<noteq> CHR ''/''"
    using a by auto
  then have t: "takeWhile (\<lambda>c. c \<noteq> CHR ''/'') (rev name) = rev name"
    unfolding takeWhile_eq_all_conv .
  show ?thesis
    unfolding basename_def d t by simp
qed

lemma extname_plain:
  assumes "CHR ''/'' \<notin> set name" "extname name \<noteq> []"
  shows "plainName name"
proof -
  have b: "basename name = name" using assms(1) by (rule basename_of_name)
  from assms(2) have dot: "CHR ''.'' \<in> set name" and "name \<noteq> ''..''"
    and start: "length name - length (takeWhile (\<lambda>c. c \<noteq> CHR ''.'') (rev name)) - 1 \<noteq> 0"
    unfolding extname_def b Let_def by (auto split: if_splits)
  moreover from dot have "name \<noteq> []" by auto
  moreover have "name \<noteq> ''.''" using start by auto
  ultimately show ?thesis using assms(1) by (simp add: plainName_def)
qed

lemma stripExtension_subset: "set (stripExtension name) \<subseteq> set name"
  by (auto simp: stripExtension_def Let_def dest: in_set_takeD)

lemma plainName_targetFileNameOf: "plainName (targetFileNameOf absolutePath)"
proof -
  let ?name = "basename absolutePath"
  have ns: "CHR ''/'' \<notin> set ?name" by (rule basename_no_slash)
  show ?thesis
  proof (cases "toLowerCase (extname ?name) = ''.json''")
    case True
    then have "extname ?name \<noteq> []" by (auto simp: toLowerCase_def)
    with ns have "plainName ?name" by (rule extname_plain)
    with True show ?thesis by (simp add: targetFileNameOf_def Let_def)
  next
    case False
    let ?t = "stripExtension ?name @ ''.json''"
    have "CHR ''/'' \<notin> set ?t" using ns stripExtension_subset [of ?name] by auto
    moreover have "length ?t \<ge> 5" by simp
    then have "?t \<noteq> []" "?t \<noteq> ''.''" "?t \<noteq> ''..''" by auto
    ultimately have "plainName ?t" by (simp add: plainName_def)
    with False show ?thesis by (simp add: targetFileNameOf_def Let_def)
  qed
qed

lemma pathJoin_nested:
  assumes "plainName d" "plainName name"
  shows "pathJoin [r, d @ ''/'' @ name] = pathJoin [r, d] @ ''/'' @ name"
proof -
  define X where "X = (if r = [] then d else r @ ''/'' @ d)"
  have d: "d \<noteq> []" "CHR ''/'' \<notin> set d" and n: "name \<noteq> []" "CHR ''/'' \<notin> set name"
    using assms by (simp_all add: plainName_def)
  have X: "X \<noteq> []" "last X = last d" "hd X = (if r = [] then hd d else hd r)"
    using d by (auto simp: X_def)
  have pd: "pathJoin [r, d] = normalize X"
    using d by (simp add: pathJoin_def X_def)
  have pn: "pathJoin [r, d @ ''/'' @ name] = normalize (X @ CHR ''/'' # name)"
    using d by (simp add: pathJoin_def X_def)
  have segsX: "normalizeSegments a [] (splitSlash X) =
      (if r = [] then [] else normalizeSegments a [] (splitSlash r)) @ [d]" for a
  proof (cases "r = []")
    case True
    have "normalizeSegments a [] ([] @ [d]) = normalizeSegments a [] [] @ [d]"
      using assms(1) by (rule normalizeSegments_snoc)
    with True d show ?thesis by (simp add: X_def splitSlash_no_slash)
  next
    case False
    with d assms(1) show ?thesis
      by (simp add: X_def splitSlash_append_name normalizeSegments_snoc)
  qed
  have segs: "normalizeSegments a [] (splitSlash (X @ CHR ''/'' # name)) =
      normalizeSegments a [] (splitSlash X) @ [name]" for a
    using n assms(2) by (simp add: splitSlash_append_name normalizeSegments_snoc)
  have body: "joinSlash (normalizeSegments a [] (splitSlash X)) \<noteq> []" for a
    unfolding segsX joinSlash_snoc using d by simp
  have ne: "normalizeSegments a [] (splitSlash X) \<noteq> []" for a
    unfolding segsX by simp
  have lastd: "last d \<noteq> CHR ''/''" using assms(1) by (rule last_plainName)
  have lastn: "last name \<noteq> CHR ''/''" using assms(2) by (rule last_plainName)
  have "normalize X =
      (if hd X = CHR ''/'' then ''/'' else []) @
      joinSlash (normalizeSegments (hd X \<noteq> CHR ''/'') [] (splitSlash X))"
    using X lastd body by (simp add: normalize_def Let_def)
  moreover have "normalize (X @ CHR ''/'' # name) =
      (if hd X = CHR ''/'' then ''/'' else []) @
      joinSlash (normalizeSegments (hd X \<noteq> CHR ''/'') [] (splitSlash X)) @ ''/'' @ name"
    using X(1) lastn n ne unfolding normalize_def Let_def segs joinSlash_snoc by simp
  ultimately show ?thesis unfolding pd pn by simp
qed

lemma childName_child:
  "name \<noteq> [] \<Longrightarrow> CHR ''/'' \<notin> set name \<Longrightarrow> childName dir (dir @ CHR ''/'' # name) = Some name"
  by (simp add: childName_def)

lemma childName_name:
  "childName dir p = Some name \<Longrightarrow> name \<noteq> [] \<and> CHR ''/'' \<notin> set name \<and> p = dir @ ''/'' @ name"
  by (auto simp: childName_def Let_def prefix_def split: if_splits)

lemma import_target_in_themes:
  "childName (pathJoin [extensionRoot h, THEMES_DIR_RELATIVE])
     (pathJoin [pathJoin [extensionRoot h, THEMES_DIR_RELATIVE], targetFileNameOf absolutePath]) \<noteq> None"
proof -
  have "plainName THEMES_DIR_RELATIVE" by (simp add: plainName_def THEMES_DIR_RELATIVE_def)
  from pathJoin_child [OF this plainName_targetFileNameOf [of absolutePath], of "extensionRoot h"]
    plainName_targetFileNameOf [of absolutePath]
  show ?thesis by (simp add: childName_child plainName_def)
qed

lemma in_map_filter:
  "x \<in> set (List.map_filter f xs) \<longleftrightarrow> (\<exists>y\<in>set xs. f y = Some x)"
  by (induction xs) (auto simp: map_filter_simps split: option.splits)

lemma readdirSync_names:
  "name \<in> set (readdirSync w dir) \<Longrightarrow> name \<noteq> [] \<and> CHR ''/'' \<notin> set name"
  by (auto simp: readdirSync_def map_filter_def dest: childName_name)

lemma backslashesToSlashes_plain:
  "backslash_char \<notin> set s \<Longrightarrow> backslashesToSlashes s = s"
  by (induction s) (auto simp: backslashesToSlashes_def)

lemma themeEntryOfFile_path:
  "themeEntryOfFile h fileName raw = Inr t \<Longrightarrow>
   entryPath t = backslashesToSlashes (pathJoin [THEMES_DIR_RELATIVE, fileName])"
  by (auto simp: themeEntryOfFile_def Let_def split_beta
      split: option.splits sum.splits json.splits if_splits)

lemma listed_theme_file:
  assumes "t \<in> set (readImportedThemesFromDisk h w)"
  shows "\<exists>fileName raw. fileName \<in> set (readdirSync w (pathJoin [extensionRoot h, THEMES_DIR_RELATIVE])) \<and>
           suffix ''.json'' fileName \<and> themeEntryOfFile h fileName raw = Inr t"
proof -
  let ?dir = "pathJoin [extensionRoot h, THEMES_DIR_RELATIVE]"
  from assms obtain fileName where
    listed: "fileName \<in> set (filter (\<lambda>name. suffix ''.json'' name) (readdirSync w ?dir))"
    and some: "(case readFileSync w (pathJoin [?dir, fileName]) of
                  None \<Rightarrow> None
                | Some raw \<Rightarrow>
                    (case themeEntryOfFile h fileName raw of
                       Inl e \<Rightarrow> None
                     | Inr entry \<Rightarrow> Some entry)) = Some t"
    unfolding readImportedThemesFromDisk_def Let_def in_map_filter by blast
  from some obtain raw where "themeEntryOfFile h fileName raw = Inr t"
    by (auto split: option.splits sum.splits)
  with listed show ?thesis by auto
qed

lemma listed_theme_in_directory:
  assumes "backslashFreeThemes h w" "t \<in> set (readImportedThemesFromDisk h w)"
  shows "childName (pathJoin [extensionRoot h, THEMES_DIR_RELATIVE])
           (pathJoin [extensionRoot h, entryPath t]) \<noteq> None"
proof -
  from listed_theme_file [OF assms(2)] obtain fileName raw where
    listed: "fileName \<in> set (readdirSync w (pathJoin [extensionRoot h, THEMES_DIR_RELATIVE]))"
    and json: "suffix ''.json'' fileName"
    and entry: "themeEntryOfFile h fileName raw = Inr t"
    by blast
  from assms(1) listed json have nb: "backslash_char \<notin> set fileName"
    by (auto simp: backslashFreeThemes_def list_all_iff)
  from readdirSync_names [OF listed] have ns: "fileName \<noteq> []" "CHR ''/'' \<notin> set fileName"
    by simp_all
  from json have "length fileName \<ge> 5" by (auto simp: suffix_def)
  then have "fileName \<noteq> ''.''" "fileName \<noteq> ''..''" by auto
  with ns have plain: "plainName fileName" by (simp add: plainName_def)
  have themes: "plainName ''themes''" by (simp add: plainName_def)
  have "pathJoin [''themes'', fileName] = ''themes/'' @ fileName"
    using pathJoin_plain [OF plain, of "''themes''"] by (simp add: joinBase_def Let_def)
  moreover have "backslash_char \<notin> set (''themes/'' @ fileName)"
    using nb by (auto simp: backslash_char_def)
  ultimately have "entryPath t = ''themes'' @ ''/'' @ fileName"
    using themeEntryOfFile_path [OF entry]
    by (simp add: THEMES_DIR_RELATIVE_def backslashesToSlashes_plain)
  then have "pathJoin [extensionRoot h, entryPath t] =
      pathJoin [extensionRoot h, ''themes''] @ ''/'' @ fileName"
    using pathJoin_nested [OF themes plain, of "extensionRoot h"] by simp
  with ns show ?thesis
    by (simp add: THEMES_DIR_RELATIVE_def childName_child)
qed

section \<open>Facts about the files an operation leaves alone\<close>

subsection \<open>Theme operations\<close>

lemma sync_frame:
  assumes "syncPackageJsonThemes h w = Inr w'"
    and "p \<noteq> pathJoin [extensionRoot h, ''package.json'']"
    and "p \<noteq> pathJoin [extensionRoot h, PACKAGE_JSON_BACKUP]"
  shows "readFileSync w' p = readFileSync w p"
  using assms
  by (auto simp: syncPackageJsonThemes_def read_writePackageJson split: sum.splits)

lemma importParsed_frame:
  assumes "childName (pathJoin [extensionRoot h, THEMES_DIR_RELATIVE]) p = None"
  shows "readFileSync (fst (importParsed h ex ap decision obj st)) p = readFileSync (fst st) p"
proof -
  have "p \<noteq> pathJoin [pathJoin [extensionRoot h, THEMES_DIR_RELATIVE], targetFileNameOf ap]"
    using assms import_target_in_themes [of h ap] by auto
  then show ?thesis
    by (cases st) (simp add: importParsed_def Let_def read_write)
qed

lemma importOne_frame:
  assumes "childName (pathJoin [extensionRoot h, THEMES_DIR_RELATIVE]) p = None"
  shows "readFileSync (fst (importOne h ex uri st)) p = readFileSync (fst st) p"
  using importParsed_frame [OF assms]
  by (cases uri; cases st) (auto simp: importOne_def split: option.splits json.splits)

lemma import_loop_frame:
  assumes "childName (pathJoin [extensionRoot h, THEMES_DIR_RELATIVE]) p = None"
  shows "readFileSync (fst (foldl (\<lambda>st uri. importOne h ex uri st) st us)) p = readFileSync (fst st) p"
  by (induction us arbitrary: st) (simp_all add: importOne_frame [OF assms])

lemma removeThemeFile_frame:
  assumes "childName (pathJoin [extensionRoot h, THEMES_DIR_RELATIVE]) p = None"
    and "childName (pathJoin [extensionRoot h, THEMES_DIR_RELATIVE])
           (pathJoin [extensionRoot h, entryPath theme]) \<noteq> None"
  shows "readFileSync (removeThemeFile h w theme) p = readFileSync w p"
  using assms by (auto simp: removeThemeFile_def Let_def read_unlink)

lemma remove_loop_frame:
  assumes "childName (pathJoin [extensionRoot h, THEMES_DIR_RELATIVE]) p = None"
    and "\<forall>theme\<in>set picks. childName (pathJoin [extensionRoot h, THEMES_DIR_RELATIVE])
           (pathJoin [extensionRoot h, entryPath theme]) \<noteq> None"
  shows "readFileSync (foldl (removeThemeFile h) w picks) p = readFileSync w p"
  using assms(2)
  by (induction picks arbitrary: w) (simp_all add: removeThemeFile_frame [OF assms(1)])

lemma read_colorTheme_update [simp]: "readFileSync (w\<lparr>colorTheme := c\<rparr>) p = readFileSync w p"
  by (simp add: readFileSync_def)

lemma handleImportThemes_frame:
  assumes "p \<notin> themeManagerPaths h"
  shows "readFileSync (handleImportThemes h uris action w) p = readFileSync w p"
proof -
  from assms have np: "childName (pathJoin [extensionRoot h, THEMES_DIR_RELATIVE]) p = None"
    and pk: "p \<noteq> pathJoin [extensionRoot h, ''package.json'']"
    "p \<noteq> pathJoin [extensionRoot h, PACKAGE_JSON_BACKUP]"
    by (auto simp: themeManagerPaths_def)
  show ?thesis
  proof (cases uris)
    case None
    then show ?thesis by (simp add: handleImportThemes_def)
  next
    case (Some us)
    let ?st = "foldl (\<lambda>st uri. importOne h (readImportedThemesFromDisk h w) uri st) (w, []) us"
    have loop: "readFileSync (fst ?st) p = readFileSync w p"
      using import_loop_frame [OF np, of "readImportedThemesFromDisk h w" "(w, [])" us] by simp
    show ?thesis
    proof (cases "syncPackageJsonThemes h (fst ?st)")
      case (Inl e)
      with Some loop show ?thesis
        by (simp add: handleImportThemes_def Let_def split_beta)
    next
      case (Inr w2)
      from sync_frame [OF Inr pk] loop have "readFileSync w2 p = readFileSync w p" by simp
      with Some Inr show ?thesis
        by (simp add: handleImportThemes_def Let_def split_beta)
    qed
  qed
qed

lemma handleRemoveThemes_frame:
  assumes "p \<notin> themeManagerPaths h" and "backslashFreeThemes h w"
  shows "readFileSync (handleRemoveThemes h picked confirmation w) p = readFileSync w p"
proof -
  from assms(1) have np: "childName (pathJoin [extensionRoot h, THEMES_DIR_RELATIVE]) p = None"
    and pk: "p \<noteq> pathJoin [extensionRoot h, ''package.json'']"
    "p \<noteq> pathJoin [extensionRoot h, PACKAGE_JSON_BACKUP]"
    by (auto simp: themeManagerPaths_def)
  let ?themes = "readImportedThemesFromDisk h w"
  have "readFileSync (case syncPackageJsonThemes h (foldl (removeThemeFile h) w picks) of
            Inl e \<Rightarrow> foldl (removeThemeFile h) w picks | Inr w2 \<Rightarrow> w2) p = readFileSync w p"
    if "set picks \<subseteq> set ?themes" for picks
  proof -
    have "\<forall>theme\<in>set picks. childName (pathJoin [extensionRoot h, THEMES_DIR_RELATIVE])
           (pathJoin [extensionRoot h, entryPath theme]) \<noteq> None"
      using that listed_theme_in_directory [OF assms(2)] by blast
    from remove_loop_frame [OF np this, of w] sync_frame [OF _ pk] show ?thesis
      by (auto split: sum.splits)
  qed
  moreover have "set (map (\<lambda>i. ?themes ! i) (filter (\<lambda>i. i < length ?themes) positions)) \<subseteq> set ?themes"
    for positions
    by auto
  ultimately show ?thesis
    by (auto simp: handleRemoveThemes_def Let_def split: option.splits)
qed

lemma handleRepairContributions_frame:
  assumes "p \<notin> themeManagerPaths h"
  shows "readFileSync (handleRepairContributions h w) p = readFileSync w p"
  using assms sync_frame [of h w _ p]
  by (auto simp: handleRepairContributions_def themeManagerPaths_def split: sum.splits)

lemma handleRestorePackageJsonBackup_frame:
  assumes "p \<notin> themeManagerPaths h"
  shows "readFileSync (handleRestorePackageJsonBackup h confirmation w) p = readFileSync w p"
  using assms
  by (auto simp: handleRestorePackageJsonBackup_def themeManagerPaths_def Let_def read_write
      split: option.splits)



subsection \<open>Font operations\<close>

lemma fontFrame_refl: "fontFrame h w w"
  by (simp add: fontFrame_def)

lemma fontFrame_trans:
  assumes "fontFrame h w w1" "fontFrame h w1 w2"
  shows "fontFrame h w w2"
  using assms by (simp add: fontFrame_def)

lemma fontFrame_getWorkbenchPath: "fontFrame h w (snd (getWorkbenchPath h w))"
  by (simp add: fontFrame_def readFileSync_def getWorkbenchPath_keeps getWorkbenchPath_cached)

lemma getWorkbenchPath_setWorkbenchFont:
  "fst (getWorkbenchPath h (setWorkbenchFont font w)) = fst (getWorkbenchPath h w)"
  by (auto simp: getWorkbenchPath_def setWorkbenchFont_def existsSync_def Let_def
      split: option.splits)

lemma fontFrame_setWorkbenchFont: "fontFrame h w (setWorkbenchFont font w)"
  by (simp add: fontFrame_def getWorkbenchPath_setWorkbenchFont)
    (simp add: setWorkbenchFont_def readFileSync_def)

lemma getWorkbenchPath_write:
  "fst (getWorkbenchPath h (writeFileSync (fst (getWorkbenchPath h w)) t w)) =
   fst (getWorkbenchPath h w)"
  by (auto simp: getWorkbenchPath_def writeFileSync_def existsSync_def Let_def update_conv'
      split: option.splits if_splits)

lemma fontFrame_write: "fontFrame h w (writeFileSync (fst (getWorkbenchPath h w)) t w)"
  by (simp add: fontFrame_def read_write getWorkbenchPath_write)

lemma fontFrame_save: "fontFrame h w (saveWorkbenchHtml h html w)"
proof -
  let ?w1 = "snd (getWorkbenchPath h w)"
  have "fontFrame h ?w1 (writeFileSync (fst (getWorkbenchPath h ?w1)) html ?w1)"
    by (rule fontFrame_write)
  then have "fontFrame h ?w1 (writeFileSync (fst (getWorkbenchPath h w)) html ?w1)"
    by (simp add: getWorkbenchPath_cached)
  with fontFrame_getWorkbenchPath [of h w] show ?thesis
    unfolding saveWorkbenchHtml_def split_beta Let_def by (rule fontFrame_trans)
qed

lemma fontFrame_getWorkbenchHtml: "fontFrame h w (snd (getWorkbenchHtml h w))"
  by (simp add: getWorkbenchHtml_eq fontFrame_getWorkbenchPath)

lemma fontFrame_after_html:
  "fontFrame h w (saveWorkbenchHtml h html (snd (getWorkbenchHtml h w)))"
  using fontFrame_getWorkbenchHtml fontFrame_save by (rule fontFrame_trans)

lemma enableWithFont_frame: "fontFrame h w (enableWithFont h font w)"
  using fontFrame_getWorkbenchHtml [of h w] fontFrame_after_html [of h w]
  by (cases "getWorkbenchHtml h w") (auto simp: enableWithFont_def Let_def split: option.splits)

lemma handleReloadFontConfiguration_frame: "fontFrame h w (handleReloadFontConfiguration h w)"
  using fontFrame_getWorkbenchHtml [of h w] fontFrame_after_html [of h w]
  by (cases "getWorkbenchHtml h w")
    (auto simp: handleReloadFontConfiguration_def Let_def fontFrame_refl split: option.splits)

lemma handleDisableCustomFont_frame: "fontFrame h w (handleDisableCustomFont h w)"
  using fontFrame_getWorkbenchHtml [of h w] fontFrame_after_html [of h w]
  by (cases "getWorkbenchHtml h w")
    (auto simp: handleDisableCustomFont_def Let_def split: option.splits)

lemma handleResetToDefaults_frame: "fontFrame h w (handleResetToDefaults h confirmation w)"
proof (cases "confirmation = Some ''Reset''")
  case False
  then show ?thesis by (simp add: handleResetToDefaults_def fontFrame_refl)
next
  case True
  let ?w0 = "setWorkbenchFont None w"
  have "fontFrame h ?w0 (case getWorkbenchHtml h ?w0 of
           (None, w1) \<Rightarrow> w1
         | (Some html, w1) \<Rightarrow>
             if includes_str html STYLE_TAG_OPEN then saveWorkbenchHtml h (removeStyle html) w1 else w1)"
    using fontFrame_getWorkbenchHtml [of h ?w0] fontFrame_after_html [of h ?w0]
    by (cases "getWorkbenchHtml h ?w0") (auto split: option.splits)
  with fontFrame_setWorkbenchFont [of h w None] have "fontFrame h w (case getWorkbenchHtml h ?w0 of
           (None, w1) \<Rightarrow> w1
         | (Some html, w1) \<Rightarrow>
             if includes_str html STYLE_TAG_OPEN then saveWorkbenchHtml h (removeStyle html) w1 else w1)"
    by (rule fontFrame_trans)
  with True show ?thesis by (simp add: handleResetToDefaults_def Let_def)
qed

lemma set_and_enable_frame:
  "fontFrame h w (handleSetCustomFont h answers w)"
  "fontFrame h w (handleEnableCustomFont h answers w)"
proof (induction h answers w and h answers w rule: handleSetCustomFont_handleEnableCustomFont.induct)
  case (1 h answers w)
  show ?case
  proof (cases answers)
    case Nil
    then show ?thesis by (simp add: fontFrame_refl)
  next
    case (Cons first rest)
    show ?thesis
    proof (cases first)
      case None
      with Cons show ?thesis by (simp add: fontFrame_refl)
    next
      case (Some val)
      show ?thesis
      proof (cases "trim val = []")
        case True
        with Cons Some show ?thesis by (simp add: fontFrame_refl)
      next
        case False
        let ?w0 = "setWorkbenchFont (Some (trim val)) w"
        let ?w1 = "snd (getWorkbenchHtml h ?w0)"
        have w1: "fontFrame h w ?w1"
          using fontFrame_setWorkbenchFont fontFrame_getWorkbenchHtml by (rule fontFrame_trans)
        show ?thesis
        proof (cases "fst (getWorkbenchHtml h ?w0)")
          case None
          with Cons Some False w1 show ?thesis
            by (simp add: Let_def split_beta)
        next
          case html: (Some html)
          show ?thesis
          proof (cases rest)
            case Nil
            with Cons Some False html w1 show ?thesis
              by (simp add: Let_def split_beta)
          next
            case rest: (Cons second rest')
            show ?thesis
            proof (cases second)
              case None
              with Cons Some False html rest w1 show ?thesis
                by (simp add: Let_def split_beta)
            next
              case action: (Some action)
              have pair: "getWorkbenchHtml h ?w0 = (Some html, ?w1)"
                using html by (cases "getWorkbenchHtml h ?w0") simp
              show ?thesis
              proof (cases "action = []")
                case True
                with Cons Some False html rest action w1 show ?thesis
                  by (simp add: Let_def split_beta)
              next
                case nonempty: False
                show ?thesis
                proof (cases "includes_str html STYLE_TAG_OPEN")
                  case True
                  have "fontFrame h w (handleReloadFontConfiguration h ?w1)"
                    using w1 handleReloadFontConfiguration_frame by (rule fontFrame_trans)
                  with Cons Some False html rest action nonempty True show ?thesis
                    by (simp add: Let_def split_beta)
                next
                  case noStyle: False
                  have "fontFrame h ?w1 (handleEnableCustomFont h rest' ?w1)"
                    using "1.IH" [OF Cons Some refl False refl pair [symmetric] refl refl rest action nonempty]
                      noStyle by simp
                  with w1 have "fontFrame h w (handleEnableCustomFont h rest' ?w1)"
                    by (rule fontFrame_trans)
                  with Cons Some False html rest action nonempty noStyle show ?thesis
                    by (simp add: Let_def split_beta)
                qed
              qed
            qed
          qed
        qed
      qed
    qed
  qed
next
  case (2 h answers w)
  show ?case
  proof (cases "noFont (getWorkbenchFont w)")
    case False
    then show ?thesis by (simp add: enableWithFont_frame)
  next
    case True
    show ?thesis
    proof (cases answers)
      case Nil
      with True show ?thesis by (simp add: fontFrame_refl)
    next
      case (Cons action rest)
      show ?thesis
      proof (cases "action = Some ''Set font''")
        case False
        with True Cons show ?thesis by (simp add: fontFrame_refl)
      next
        case set: True
        from "2.IH" [OF True Cons set] True Cons set show ?thesis by simp
      qed
    qed
  qed
qed

section \<open>Facts about the removal of the style fragment\<close>

lemma prefix_append_fresh:
  assumes "t \<noteq> []" "c \<notin> set (tl p)" "prefix p (t @ c # y)"
  shows "prefix p t"
proof -
  from assms(3) consider "prefix p t" | us where "p = t @ us" "prefix us (c # y)"
    by (auto simp: prefix_append)
  then show ?thesis
  proof cases
    case 1
    then show ?thesis .
  next
    case 2
    show ?thesis
    proof (cases us)
      case Nil
      with 2 show ?thesis by simp
    next
      case (Cons u us')
      with 2 have "u = c" by simp
      with 2 Cons assms(1) have "c \<in> set (tl p)" by (cases t) auto
      with assms(2) show ?thesis by simp
    qed
  qed
qed

lemma prefix_append_mono: "prefix p t \<Longrightarrow> prefix p (t @ z)"
  by (simp add: prefix_prefix)

lemma idAttr_facts:
  "idAttr \<noteq> []" "hd idAttr = CHR ''i''" "\<not> isWhitespace (hd idAttr)"
  "CHR ''<'' \<notin> set idAttr" "newline_char \<notin> set idAttr"
  by (simp_all add: idAttr_def STYLE_ID_def dquote_char_def newline_char_def isWhitespace_def)

lemma styleOpeningAt_alt:
  "styleOpeningAt s \<longleftrightarrow>
     prefix ''<style'' s \<and> afterStyleTag s \<noteq> [] \<and> isWhitespace (hd (afterStyleTag s)) \<and>
     prefix idAttr (dropWhile isWhitespace (afterStyleTag s))"
  unfolding styleOpeningAt_def afterStyleTag_def idAttr_def Let_def by (rule refl)

lemma afterStyleTag_append:
  assumes "prefix ''<style'' t"
  shows "afterStyleTag (t @ z) = afterStyleTag t @ z"
proof -
  from assms have "length ''<style'' \<le> length t" by (rule prefix_length_le)
  then show ?thesis by (simp add: afterStyleTag_def)
qed

lemma dropWhile_ws_reaches_id:
  assumes "prefix idAttr (dropWhile isWhitespace r)"
  shows "dropWhile isWhitespace (r @ z) = dropWhile isWhitespace r @ z"
proof -
  have "dropWhile isWhitespace r \<noteq> []"
  proof
    assume "dropWhile isWhitespace r = []"
    with assms have "idAttr = []" by simp
    with idAttr_facts(1) show False by simp
  qed
  then have "\<not> (\<forall>x\<in>set r. isWhitespace x)"
    unfolding dropWhile_eq_Nil_conv .
  then obtain x where "x \<in> set r" "\<not> isWhitespace x" by blast
  then show ?thesis by (rule dropWhile_append1)
qed

lemma styleOpeningAt_append: "styleOpeningAt t \<Longrightarrow> styleOpeningAt (t @ z)"
proof -
  assume a: "styleOpeningAt t"
  then have p: "prefix ''<style'' t" and r: "afterStyleTag t \<noteq> []" "isWhitespace (hd (afterStyleTag t))"
    and i: "prefix idAttr (dropWhile isWhitespace (afterStyleTag t))"
    unfolding styleOpeningAt_alt by blast+
  show ?thesis
    unfolding styleOpeningAt_alt afterStyleTag_append [OF p]
    using p r i dropWhile_ws_reaches_id [OF i, of z]
    by (simp add: prefix_prefix)
qed

lemma styleOpeningAt_boundary:
  assumes t: "t \<noteq> []" and sep: "sep = [] \<or> sep = [newline_char]"
    and o: "styleOpeningAt (t @ sep @ CHR ''<'' # y)"
  shows "styleOpeningAt t"
proof -
  let ?z = "sep @ CHR ''<'' # y"
  obtain c z' where z: "?z = c # z'" and c: "c = CHR ''<'' \<or> c = newline_char"
    using sep by auto
  have znw: "dropWhile isWhitespace ?z = CHR ''<'' # y"
    using sep by (auto simp: isWhitespace_def newline_char_def)
  from o have p0: "prefix ''<style'' (t @ ?z)"
    and r0: "afterStyleTag (t @ ?z) \<noteq> []" "isWhitespace (hd (afterStyleTag (t @ ?z)))"
    and i0: "prefix idAttr (dropWhile isWhitespace (afterStyleTag (t @ ?z)))"
    unfolding styleOpeningAt_alt by blast+
  have fresh1: "c \<notin> set (tl ''<style'')"
    using c by (auto simp: newline_char_def)
  from p0 have "prefix ''<style'' (t @ c # z')"
    unfolding z .
  then have p: "prefix ''<style'' t"
    by (rule prefix_append_fresh [OF t fresh1])
  note a = afterStyleTag_append [OF p, of ?z]
  let ?r = "afterStyleTag t"
  have not_id: "\<not> prefix idAttr (CHR ''<'' # y)"
    by (simp add: idAttr_def)
  have r: "?r \<noteq> []"
  proof
    assume "?r = []"
    with i0 a znw not_id show False by simp
  qed
  have some: "\<exists>x\<in>set ?r. \<not> isWhitespace x"
  proof (rule ccontr)
    assume "\<not> (\<exists>x\<in>set ?r. \<not> isWhitespace x)"
    then have "dropWhile isWhitespace (?r @ ?z) = dropWhile isWhitespace ?z"
      by (simp add: dropWhile_append2)
    with i0 a znw not_id show False by simp
  qed
  then obtain x where "x \<in> set ?r" "\<not> isWhitespace x" by blast
  then have split: "dropWhile isWhitespace (?r @ ?z) = dropWhile isWhitespace ?r @ ?z"
    by (rule dropWhile_append1)
  from some have ne: "dropWhile isWhitespace ?r \<noteq> []"
    by (simp add: dropWhile_eq_Nil_conv)
  have fresh2: "c \<notin> set (tl idAttr)"
    using c idAttr_facts(4,5) by (metis list.set_sel(2) tl_Nil empty_iff empty_set)
  have "prefix idAttr (dropWhile isWhitespace ?r @ ?z)"
    using i0 unfolding a split .
  then have "prefix idAttr (dropWhile isWhitespace ?r @ c # z')"
    unfolding z .
  then have "prefix idAttr (dropWhile isWhitespace ?r)"
    by (rule prefix_append_fresh [OF ne fresh2])
  moreover have "isWhitespace (hd ?r)"
    using r0(2) r unfolding a by simp
  ultimately show ?thesis
    unfolding styleOpeningAt_alt using p r by blast
qed

lemma hasStyleOpening_iff:
  "hasStyleOpening s \<longleftrightarrow> (\<exists>i<length s. styleOpeningAt (drop i s))"
proof (induction s)
  case Nil
  then show ?case by simp
next
  case (Cons c cs)
  have "(\<exists>i<length (c # cs). styleOpeningAt (drop i (c # cs))) \<longleftrightarrow>
        styleOpeningAt (c # cs) \<or> (\<exists>i<length cs. styleOpeningAt (drop i cs))"
    by (auto simp: less_Suc_eq_0_disj)
  with Cons show ?case by simp
qed

lemma matchStyleBlock_opening: "matchStyleBlock s = Some rest \<Longrightarrow> styleOpeningAt s"
  unfolding styleOpeningAt_def matchStyleBlock_def Let_def
  by (auto split: if_splits)



lemma STYLE_TAG_OPEN_head: "STYLE_TAG_OPEN = styleTagHead @ ''>''"
  by (simp add: STYLE_TAG_OPEN_def styleTagHead_def)

lemma styleTagHead_opening: "styleOpeningAt (styleTagHead @ z)"
  by (simp add: styleOpeningAt_def styleTagHead_def Let_def isWhitespace_def)

lemma prefix_head_opening: "prefix styleTagHead s \<Longrightarrow> styleOpeningAt s"
  by (auto simp: prefix_def styleTagHead_opening)

lemma sublist_head_opening:
  assumes "sublist styleTagHead s"
  shows "hasStyleOpening s"
proof -
  from assms obtain ps ss where s: "s = ps @ styleTagHead @ ss"
    by (auto simp: sublist_def)
  have "styleTagHead \<noteq> []" by (simp add: styleTagHead_def)
  then have "length ps < length s" using s by simp
  moreover have "styleOpeningAt (drop (length ps) s)"
    using s by (simp add: styleTagHead_opening)
  ultimately show ?thesis
    unfolding hasStyleOpening_iff by blast
qed

lemma removeStyle_skip:
  assumes "\<forall>i<length a. matchStyleBlock (drop i a @ y) = None"
  shows "removeStyle (a @ y) = a @ removeStyle y"
  using assms
proof (induction a)
  case Nil
  then show ?case by simp
next
  case (Cons c cs)
  from Cons.prems have here: "matchStyleBlock ((c # cs) @ y) = None"
    by (metis drop0 length_greater_0_conv list.distinct(1))
  have "\<forall>i<length cs. matchStyleBlock (drop i cs @ y) = None"
  proof (intro allI impI)
    fix i assume "i < length cs"
    then have "Suc i < length (c # cs)" by simp
    with Cons.prems have "matchStyleBlock (drop (Suc i) (c # cs) @ y) = None" by blast
    then show "matchStyleBlock (drop i cs @ y) = None" by simp
  qed
  with Cons.IH have "removeStyle (cs @ y) = cs @ removeStyle y" by simp
  with here show ?case by simp
qed

lemma afterStyleClose_indexOf:
  "afterStyleClose s =
     (case indexOf ''</style>'' s of None \<Rightarrow> None | Some k \<Rightarrow> Some (drop (k + length ''</style>'') s))"
proof -
  define n where "n = ''</style>''"
  have step: "afterStyleClose (c # cs) =
      (if prefix n (c # cs) then Some (drop (length n) (c # cs)) else afterStyleClose cs)" for c cs
    by (simp add: n_def)
  have "afterStyleClose s =
     (case indexOf n s of None \<Rightarrow> None | Some k \<Rightarrow> Some (drop (k + length n) s))"
  proof (induction s)
    case Nil
    then show ?case by (simp add: n_def)
  next
    case (Cons c cs)
    show ?case
    proof (cases "prefix n (c # cs)")
      case True
      then show ?thesis unfolding step by simp
    next
      case False
      with Cons show ?thesis
        unfolding step by (cases "indexOf n cs") simp_all
    qed
  qed
  then show ?thesis unfolding n_def .
qed

lemma matchStyleBlock_tag:
  "matchStyleBlock (STYLE_TAG_OPEN @ body) = afterStyleClose body"
  unfolding afterStyleClose_indexOf
  by (simp add: matchStyleBlock_def STYLE_TAG_OPEN_def STYLE_ID_def Let_def isWhitespace_def dquote_char_def)

lemma removeStyle_tag:
  assumes "afterStyleClose body = Some rest"
  shows "removeStyle (STYLE_TAG_OPEN @ body) = rest"
proof -
  obtain c cs where "STYLE_TAG_OPEN @ body = c # cs"
    by (cases "STYLE_TAG_OPEN @ body") (simp_all add: STYLE_TAG_OPEN_def)
  moreover have "matchStyleBlock (STYLE_TAG_OPEN @ body) = Some rest"
    using assms by (simp add: matchStyleBlock_tag)
  ultimately show ?thesis by simp
qed



lemma getStyleMarkup_parts:
  "getStyleMarkup font = STYLE_TAG_OPEN @ cssHead @ escapeQuotes font @ cssTail"
  by (simp add: getStyleMarkup_text cssHead_def cssTail_def)

lemma afterStyleClose_miss:
  assumes "\<not> prefix ''</style>'' (c # cs)"
  shows "afterStyleClose (c # cs) = afterStyleClose cs"
proof -
  define n where "n = ''</style>''"
  have step: "afterStyleClose (c # cs) =
      (if prefix n (c # cs) then Some (drop (length n) (c # cs)) else afterStyleClose cs)"
    by (simp add: n_def)
  from assms have "\<not> prefix n (c # cs)" unfolding n_def .
  then show ?thesis unfolding step by simp
qed

lemma afterStyleClose_skip:
  "CHR ''<'' \<notin> set s \<Longrightarrow> afterStyleClose (s @ x) = afterStyleClose x"
  by (induction s) auto

lemma cssHead_no_angle: "CHR ''<'' \<notin> set cssHead"
  by (simp add: cssHead_def cssSelectors_def newline_char_def dquote_char_def)

lemma afterStyleClose_cssTail: "afterStyleClose (cssTail @ c) = Some c"
  by (simp add: cssTail_def newline_char_def dquote_char_def)

lemma noBareQuote_escapeQuotes: "noBareQuote p (escapeQuotes font)"
  by (induction font arbitrary: p) (auto simp: escapeQuotes_def dquote_char_def backslash_char_def)

lemma noBareQuote_after_close:
  "noBareQuote p (''</style>'' @ e) \<Longrightarrow> noBareQuote (CHR ''>'') e"
  by (simp add: dquote_char_def)

lemma close_within:
  assumes "prefix ''</style>'' ((e # es) @ cssTail @ c)"
  shows "\<exists>e'. e # es = ''</style>'' @ e'"
proof -
  have "cssTail @ c = dquote_char # (tl cssTail @ c)"
    by (simp add: cssTail_def)
  with assms have "prefix ''</style>'' ((e # es) @ dquote_char # (tl cssTail @ c))"
    by simp
  moreover have "dquote_char \<notin> set (tl ''</style>'')"
    by (simp add: dquote_char_def)
  ultimately have "prefix ''</style>'' (e # es)"
    using prefix_append_fresh [of "e # es" dquote_char "''</style>''"] by blast
  then show ?thesis by (auto simp: prefix_def)
qed

lemma afterStyleClose_escaped:
  assumes "noBareQuote p e"
  shows "afterStyleClose (e @ cssTail @ c) = Some c \<or>
         (\<exists>e'. noBareQuote (CHR ''>'') e' \<and> afterStyleClose (e @ cssTail @ c) = Some (e' @ cssTail @ c))"
  using assms
proof (induction e arbitrary: p)
  case Nil
  then show ?case by (simp add: afterStyleClose_cssTail)
next
  case (Cons x xs)
  show ?case
  proof (cases "prefix ''</style>'' ((x # xs) @ cssTail @ c)")
    case True
    then obtain e' where e': "x # xs = ''</style>'' @ e'"
      using close_within by blast
    with Cons.prems have "noBareQuote (CHR ''>'') e'"
      using noBareQuote_after_close [of p e'] by simp
    moreover have "afterStyleClose ((x # xs) @ cssTail @ c) = Some (e' @ cssTail @ c)"
      unfolding e' by simp
    ultimately show ?thesis by blast
  next
    case False
    then have "\<not> prefix ''</style>'' (x # (xs @ cssTail @ c))"
      unfolding append_Cons .
    then have "afterStyleClose (x # (xs @ cssTail @ c)) = afterStyleClose (xs @ cssTail @ c)"
      by (rule afterStyleClose_miss)
    then have "afterStyleClose ((x # xs) @ cssTail @ c) = afterStyleClose (xs @ cssTail @ c)"
      unfolding append_Cons .
    moreover from Cons.prems have "noBareQuote x xs" by simp
    ultimately show ?thesis using Cons.IH [of x] by simp
  qed
qed

text \<open>The last three characters of the opening tag never follow an escaped font name.\<close>

lemma no_tag_end_after_escaped:
  "noBareQuote p e \<Longrightarrow> \<not> sublist [CHR ''s'', dquote_char, CHR ''>''] (p # e @ cssTail)"
proof (induction e arbitrary: p)
  case Nil
  show ?case
    by (simp add: sublist_Cons_right cssTail_def dquote_char_def newline_char_def)
next
  case (Cons x xs)
  from Cons.prems have q: "x = dquote_char \<longrightarrow> p = backslash_char" and rest: "noBareQuote x xs"
    by simp_all
  have "\<not> prefix [CHR ''s'', dquote_char, CHR ''>''] (p # (x # xs) @ cssTail)"
    using q by (auto simp: backslash_char_def)
  with Cons.IH [OF rest] show ?case
    by (simp add: sublist_Cons_right)
qed

lemma no_tag_end_in_rest:
  assumes "noBareQuote (CHR ''>'') e"
  shows "\<not> sublist [CHR ''s'', dquote_char, CHR ''>''] (e @ cssTail)"
    and "\<not> prefix [dquote_char, CHR ''>''] (e @ cssTail)"
proof -
  from no_tag_end_after_escaped [OF assms] show "\<not> sublist [CHR ''s'', dquote_char, CHR ''>''] (e @ cssTail)"
    by (simp add: sublist_Cons_right)
  show "\<not> prefix [dquote_char, CHR ''>''] (e @ cssTail)"
  proof (cases e)
    case Nil
    then show ?thesis by (simp add: cssTail_def)
  next
    case (Cons x xs)
    with assms have "x \<noteq> dquote_char" by (auto simp: backslash_char_def)
    with Cons show ?thesis by simp
  qed
qed



lemma sublist_split_at_fresh:
  assumes "ch \<notin> set m" "sublist m (x @ ch # y)"
  shows "sublist m x \<or> sublist m y"
proof -
  from assms(2) consider "sublist m x" | "sublist m (ch # y)"
    | m1 m2 where "m = m1 @ m2" "suffix m1 x" "prefix m2 (ch # y)"
    unfolding sublist_append by blast
  then show ?thesis
  proof cases
    case 1
    then show ?thesis by simp
  next
    case 2
    then consider "prefix m (ch # y)" | "sublist m y"
      unfolding sublist_Cons_right by blast
    then show ?thesis
    proof cases
      case 1
      with assms(1) have "m = []" by (cases m) auto
      then show ?thesis by simp
    next
      case 2
      then show ?thesis by simp
    qed
  next
    case 3
    with assms(1) have "m2 = []" by (cases m2) auto
    with 3 show ?thesis by auto
  qed
qed

lemma drop_take_rest: "i \<le> k \<Longrightarrow> drop i (take k xs) @ drop k xs = drop i xs"
  by (induction xs arbitrary: i k) (auto simp: drop_Cons take_Cons split: nat.splits)

lemma tag_facts:
  "newline_char \<notin> set STYLE_TAG_OPEN" "newline_char \<notin> set styleTagHead"
  "STYLE_TAG_OPEN \<noteq> []" "sublist styleTagHead STYLE_TAG_OPEN"
  "sublist [CHR ''s'', dquote_char, CHR ''>''] STYLE_TAG_OPEN"
  "styleTagHead = (''<style id='' @ [dquote_char] @ ''sh1ffy-tweak'') @ [CHR ''s'', dquote_char]"
proof -
  show "newline_char \<notin> set STYLE_TAG_OPEN" "newline_char \<notin> set styleTagHead" "STYLE_TAG_OPEN \<noteq> []"
    by (simp_all add: STYLE_TAG_OPEN_def styleTagHead_def STYLE_ID_def newline_char_def dquote_char_def)
  show "sublist styleTagHead STYLE_TAG_OPEN"
    unfolding STYLE_TAG_OPEN_head by simp
  have "STYLE_TAG_OPEN = (''<style id='' @ [dquote_char] @ ''sh1ffy-tweak'') @ [CHR ''s'', dquote_char, CHR ''>''] @ []"
    by (simp add: STYLE_TAG_OPEN_def STYLE_ID_def)
  then show "sublist [CHR ''s'', dquote_char, CHR ''>''] STYLE_TAG_OPEN"
    by (metis sublist_appendI)
  show "styleTagHead = (''<style id='' @ [dquote_char] @ ''sh1ffy-tweak'') @ [CHR ''s'', dquote_char]"
    by (simp add: styleTagHead_def STYLE_ID_def)
qed

lemma no_opening_no_head:
  assumes "\<not> hasStyleOpening html" "sublist s html"
  shows "\<not> sublist styleTagHead s"
proof
  assume "sublist styleTagHead s"
  then have "sublist styleTagHead html"
    using assms(2) by (rule sublist_order.order.trans)
  then have "hasStyleOpening html" by (rule sublist_head_opening)
  with assms(1) show False by simp
qed

text \<open>The text before the injected markup, and the text after the line feed that follows it.\<close>

lemma injectStyle_around:
  assumes no: "\<not> hasStyleOpening html"
  shows "\<exists>a c. injectStyle html markup = a @ markup @ newline_char # c \<and>
           (\<forall>i<length a. \<forall>y. \<not> styleOpeningAt (drop i a @ CHR ''<'' # y)) \<and>
           \<not> sublist styleTagHead a \<and> \<not> sublist STYLE_TAG_OPEN c"
proof (cases "indexOf ''</head>'' html")
  case None
  let ?a = "html @ [newline_char]"
  have eq: "injectStyle html markup = ?a @ markup @ newline_char # []"
    using None by (simp add: injectStyle_def)
  have p1: "\<not> styleOpeningAt (drop i ?a @ CHR ''<'' # y)" if "i < length ?a" for i y
  proof (cases "i < length html")
    case True
    then have t: "drop i html \<noteq> []" by simp
    have "\<not> styleOpeningAt (drop i html)"
      using no True unfolding hasStyleOpening_iff by blast
    then have "\<not> styleOpeningAt (drop i html @ [newline_char] @ CHR ''<'' # y)"
      using styleOpeningAt_boundary [OF t, of "[newline_char]" y] by blast
    with True show ?thesis by simp
  next
    case False
    with that have "drop i ?a = [newline_char]" by simp
    then show ?thesis
      by (simp add: styleOpeningAt_def newline_char_def)
  qed
  have p2: "\<not> sublist styleTagHead ?a"
  proof
    assume "sublist styleTagHead ?a"
    then have "sublist styleTagHead html \<or> sublist styleTagHead []"
      using sublist_split_at_fresh [OF tag_facts(2), of html "[]"] by simp
    then have "sublist styleTagHead html"
      by (auto simp: styleTagHead_def)
    with no no_opening_no_head [OF no, of html] show False by simp
  qed
  have p3: "\<not> sublist STYLE_TAG_OPEN []"
    using tag_facts(3) by simp
  from eq p1 p2 p3 show ?thesis by blast
next
  case (Some k)
  let ?a = "take k html"
  let ?c = "drop k html"
  have eq: "injectStyle html markup = ?a @ markup @ newline_char # ?c"
    using Some by (simp add: injectStyle_def)
  have p1: "\<not> styleOpeningAt (drop i ?a @ CHR ''<'' # y)" if "i < length ?a" for i y
  proof
    assume o: "styleOpeningAt (drop i ?a @ CHR ''<'' # y)"
    from that have t: "drop i ?a \<noteq> []" and ik: "i \<le> k" and il: "i < length html"
      by (auto simp: min_def split: if_splits)
    from o have "styleOpeningAt (drop i ?a)"
      using styleOpeningAt_boundary [OF t, of "[]" y] by simp
    then have "styleOpeningAt (drop i ?a @ ?c)" by (rule styleOpeningAt_append)
    then have "styleOpeningAt (drop i html)" by (simp add: drop_take_rest [OF ik])
    with il no show False unfolding hasStyleOpening_iff by blast
  qed
  have "sublist ?a html" by (metis append_take_drop_id sublist_append_rightI)
  then have p2: "\<not> sublist styleTagHead ?a" by (rule no_opening_no_head [OF no])
  have "sublist ?c html" by (metis append_take_drop_id sublist_append_leftI)
  then have "\<not> sublist styleTagHead ?c" by (rule no_opening_no_head [OF no])
  then have p3: "\<not> sublist STYLE_TAG_OPEN ?c"
    using tag_facts(4) sublist_order.order.trans by blast
  from eq p1 p2 p3 show ?thesis by blast
qed

lemma no_tag_across:
  assumes a: "\<not> sublist styleTagHead a"
    and e: "noBareQuote (CHR ''>'') e"
  shows "\<not> sublist STYLE_TAG_OPEN (a @ e @ cssTail)"
proof
  let ?u = "e @ cssTail"
  let ?end = "[CHR ''s'', dquote_char, CHR ''>'']"
  let ?h0 = "''<style id='' @ [dquote_char] @ ''sh1ffy-tweak''"
  assume "sublist STYLE_TAG_OPEN (a @ e @ cssTail)"
  then consider "sublist STYLE_TAG_OPEN a" | "sublist STYLE_TAG_OPEN ?u"
    | m1 m2 where "STYLE_TAG_OPEN = m1 @ m2" "suffix m1 a" "prefix m2 ?u"
    unfolding sublist_append by blast
  then show False
  proof cases
    case 1
    with tag_facts(4) have "sublist styleTagHead a"
      by (rule sublist_order.order.trans)
    with a show False by simp
  next
    case 2
    with tag_facts(5) have "sublist ?end ?u"
      by (rule sublist_order.order.trans)
    with no_tag_end_in_rest(1) [OF e] show False by simp
  next
    case 3
    from 3(1) have "m1 @ m2 = styleTagHead @ [CHR ''>'']"
      by (simp add: STYLE_TAG_OPEN_head)
    then consider u where "m1 = styleTagHead @ u" "u @ m2 = [CHR ''>'']"
      | u where "m1 @ u = styleTagHead" "m2 = u @ [CHR ''>'']"
      unfolding append_eq_append_conv2 by blast
    then show False
    proof cases
      case 1
      from 1(1) 3(2) have "sublist styleTagHead a"
        by (metis sublist_appendI suffix_imp_sublist sublist_order.order.trans append_Nil)
      with a show False by simp
    next
      case 2
      show False
      proof (cases "u = []")
        case True
        with 2 3(2) have "suffix styleTagHead a" by simp
        then have "sublist styleTagHead a" by (rule suffix_imp_sublist)
        with a show False by simp
      next
        case False
        from 2(1) have "m1 @ u = ?h0 @ [CHR ''s'', dquote_char]"
          using tag_facts(6) by simp
        then consider v where "m1 = ?h0 @ v" "v @ u = [CHR ''s'', dquote_char]"
          | v where "m1 @ v = ?h0" "u = v @ [CHR ''s'', dquote_char]"
          unfolding append_eq_append_conv2 by blast
        then have "u = [dquote_char] \<or> suffix [CHR ''s'', dquote_char] u"
        proof cases
          case 1
          from 1(2) False show ?thesis
            by (cases v; cases "tl v") (auto simp: suffix_def)
        next
          case 2
          then show ?thesis by (simp add: suffix_def)
        qed
        then show False
        proof
          assume "u = [dquote_char]"
          with 2(2) 3(3) have "prefix [dquote_char, CHR ''>''] ?u" by simp
          with no_tag_end_in_rest(2) [OF e] show False by simp
        next
          assume "suffix [CHR ''s'', dquote_char] u"
          then obtain u' where "u = u' @ [CHR ''s'', dquote_char]"
            by (auto simp: suffix_def)
          with 2(2) have "m2 = u' @ ?end @ []" by simp
          then have "sublist ?end m2" by (metis sublist_appendI)
          moreover from 3(3) have "sublist m2 ?u" by (rule prefix_imp_sublist)
          ultimately have "sublist ?end ?u" by (rule sublist_order.order.trans)
          with no_tag_end_in_rest(1) [OF e] show False by simp
        qed
      qed
    qed
  qed
qed

section \<open>Facts about the comment stripper\<close>

subsection \<open>The loop over the indices is the scanner\<close>

declare stripLoop.simps [simp del]

lemma stripLoop_end: "\<not> i < length input \<Longrightarrow> stripLoop input i s = outputStr s"
  by (subst stripLoop.simps) simp

lemma drop_at: "i < length input \<Longrightarrow> drop i input = input ! i # drop (Suc i) input"
  by (simp add: Cons_nth_drop_Suc)

lemma countBackslashes_Suc:
  "odd (countBackslashes input (Suc i)) = (input ! i = backslash_char \<and> \<not> odd (countBackslashes input i))"
  by simp

lemma scan_at_end [simp]: "scan m [c] = (if m = InLineC \<and> c \<noteq> newline_char \<and> c \<noteq> return_char \<or> m = InBlockC then [] else [c])"
  by (cases m) auto

lemma stripLoop_scan:
  assumes "stateOk s" "i \<le> length input"
  shows "stripLoop input i s = outputStr s @ scan (modeOf input i s) (drop i input)"
  using assms
proof (induction "length input - i" arbitrary: i s rule: less_induct)
  case less
  show ?case
  proof (cases "i < length input")
    case False
    with less.prems have "drop i input = []" by simp
    with False show ?thesis by (simp add: stripLoop_end)
  next
    case True
    define ch where "ch = input ! i"
    define rest where "rest = drop (Suc i) input"
    define nxt where "nxt = (if i + 1 < length input then [input ! (i + 1)] else [])"
    have here: "drop i input = ch # rest"
      using True by (simp add: ch_def rest_def drop_at)
    have rest_cases: "(rest = [] \<and> nxt = []) \<or> (\<exists>d ds. rest = d # ds \<and> nxt = [d] \<and> ds = drop (i + 2) input)"
    proof (cases "i + 1 < length input")
      case True
      then have "rest = input ! (i + 1) # drop (i + 2) input"
        using drop_at [of "i + 1" input] by (simp add: rest_def)
      with True show ?thesis by (simp add: nxt_def)
    next
      case False
      then show ?thesis by (simp add: rest_def nxt_def)
    qed
    have step: "length input - (i + 1) < length input - i" "i + 1 \<le> length input"
      using True by simp_all
    have step2: "rest \<noteq> [] \<Longrightarrow> length input - (i + 2) < length input - i \<and> i + 2 \<le> length input"
      using True by (auto simp: rest_def)
    note IH1 = less.hyps [OF step(1) _ step(2)]
    have unfold: "stripLoop input i s =
        (if inLineComment s then
              (if ch = newline_char \<or> ch = return_char
               then stripLoop input (i + 1) (s\<lparr>inLineComment := False, outputStr := outputStr s @ [ch]\<rparr>)
               else stripLoop input (i + 1) s)
            else if inBlockComment s then
              (if ch = CHR ''*'' \<and> nxt = ''/''
               then stripLoop input (i + 2) (s\<lparr>inBlockComment := False\<rparr>)
               else stripLoop input (i + 1) s)
            else if \<not> inString s \<and> ch = CHR ''/'' \<and> nxt = ''/'' then
              stripLoop input (i + 2) (s\<lparr>inLineComment := True\<rparr>)
            else if \<not> inString s \<and> ch = CHR ''/'' \<and> nxt = ''*'' then
              stripLoop input (i + 2) (s\<lparr>inBlockComment := True\<rparr>)
            else
              (let s' = quoteStep input i ch s
               in stripLoop input (i + 1) (s'\<lparr>outputStr := outputStr s' @ [ch]\<rparr>)))"
      using True by (subst stripLoop.simps) (simp add: ch_def nxt_def Let_def)
    show ?thesis
    proof (cases "inLineComment s")
      case line: True
      with less.prems(1) have mode: "modeOf input i s = InLineC" by (simp add: modeOf_def)
      show ?thesis
      proof (cases "ch = newline_char \<or> ch = return_char")
        case True
        let ?s = "s\<lparr>inLineComment := False, outputStr := outputStr s @ [ch]\<rparr>"
        have ok: "stateOk ?s" using less.prems(1) line by (simp add: stateOk_def)
        have "modeOf input (i + 1) ?s = InCode"
          using less.prems(1) line by (simp add: modeOf_def stateOk_def)
        with IH1 [OF ok] True line show ?thesis
          unfolding unfold mode here by (simp add: rest_def)
      next
        case False
        have "modeOf input (i + 1) s = InLineC" using line by (simp add: modeOf_def)
        with IH1 [OF less.prems(1)] False line show ?thesis
          unfolding unfold mode here by (simp add: rest_def)
      qed
    next
      case noline: False
      show ?thesis
      proof (cases "inBlockComment s")
        case block: True
        with noline have mode: "modeOf input i s = InBlockC" by (simp add: modeOf_def)
        show ?thesis
        proof (cases "ch = CHR ''*'' \<and> nxt = ''/''")
          case True
          then obtain ds where r: "rest = CHR ''/'' # ds" "ds = drop (i + 2) input"
            using rest_cases by auto
          let ?s = "s\<lparr>inBlockComment := False\<rparr>"
          have ok: "stateOk ?s" using less.prems(1) block by (simp add: stateOk_def)
          have m: "modeOf input (i + 2) ?s = InCode"
            using less.prems(1) block noline by (simp add: modeOf_def stateOk_def)
          from step2 r have "length input - (i + 2) < length input - i" "i + 2 \<le> length input"
            by simp_all
          from less.hyps [OF this(1) ok this(2)] True block noline m r show ?thesis
            unfolding unfold mode here by simp
        next
          case False
          have m: "modeOf input (i + 1) s = InBlockC" using block noline by (simp add: modeOf_def)
          have "scan InBlockC (ch # rest) = scan InBlockC rest"
            using False rest_cases by (cases rest) auto
          with IH1 [OF less.prems(1)] block noline m show ?thesis
            unfolding unfold mode here by (simp add: rest_def False)
        qed
      next
        case noblock: False
        show ?thesis
        proof (cases "inString s")
          case str: True
          then obtain q where q: "stringChar s = Some q" "q = dquote_char \<or> q = squote_char"
            using less.prems(1) by (auto simp: stateOk_def)
          let ?esc = "odd (countBackslashes input i)"
          have mode: "modeOf input i s = InStr q ?esc"
            using str noline noblock q by (simp add: modeOf_def)
          let ?s' = "quoteStep input i ch s"
          let ?s = "?s'\<lparr>outputStr := outputStr ?s' @ [ch]\<rparr>"
          have closes: "?s' = (if ch = q \<and> \<not> ?esc then s\<lparr>inString := False, stringChar := None\<rparr> else s)"
            using str q by (auto simp: quoteStep_def)
          have ok: "stateOk ?s" using less.prems(1) by (auto simp: closes stateOk_def)
          have out: "outputStr ?s = outputStr s @ [ch]" by (simp add: closes)
          have cb: "odd (countBackslashes input (i + 1)) = (ch = backslash_char \<and> \<not> ?esc)"
            by (simp add: ch_def)
          have m: "modeOf input (i + 1) ?s =
              (if ch = q \<and> \<not> ?esc then InCode else InStr q (ch = backslash_char \<and> \<not> ?esc))"
          proof (cases "ch = q \<and> \<not> ?esc")
            case True
            then have "?s' = s\<lparr>inString := False, stringChar := None\<rparr>" unfolding closes by simp
            with True noline noblock show ?thesis by (simp add: modeOf_def)
          next
            case False
            then have "?s' = s" unfolding closes by auto
            with False str noline noblock q(1) show ?thesis
              unfolding modeOf_def cb by simp
          qed
          from IH1 [OF ok] str noline noblock show ?thesis
            unfolding unfold mode here out m by (simp add: Let_def rest_def out)
        next
          case nostr: False
          have mode: "modeOf input i s = InCode"
            using nostr noline noblock by (simp add: modeOf_def)
          show ?thesis
          proof (cases "ch = CHR ''/'' \<and> (nxt = ''/'' \<or> nxt = ''*'')")
            case True
            then obtain d ds where r: "rest = d # ds" "ds = drop (i + 2) input" "nxt = [d]"
              and d: "d = CHR ''/'' \<or> d = CHR ''*''"
              using rest_cases by auto
            let ?s = "if d = CHR ''/'' then s\<lparr>inLineComment := True\<rparr> else s\<lparr>inBlockComment := True\<rparr>"
            have ok: "stateOk ?s" using less.prems(1) nostr noline noblock by (simp add: stateOk_def)
            have m: "modeOf input (i + 2) ?s = (if d = CHR ''/'' then InLineC else InBlockC)"
              using noline by (simp add: modeOf_def)
            from step2 r have "length input - (i + 2) < length input - i" "i + 2 \<le> length input"
              by simp_all
            from less.hyps [OF this(1) ok this(2)] True nostr noline noblock m r d show ?thesis
              unfolding unfold mode here by (auto simp: dquote_char_def squote_char_def)
          next
            case False
            let ?s' = "quoteStep input i ch s"
            let ?s = "?s'\<lparr>outputStr := outputStr ?s' @ [ch]\<rparr>"
            have opens: "?s' = (if ch = dquote_char \<or> ch = squote_char
                then s\<lparr>inString := True, stringChar := Some ch\<rparr> else s)"
              using nostr by (simp add: quoteStep_def)
            have ok: "stateOk ?s"
              using less.prems(1) nostr noline noblock by (auto simp: opens stateOk_def)
            have out: "outputStr ?s = outputStr s @ [ch]" by (simp add: opens)
            have notbs: "ch = dquote_char \<or> ch = squote_char \<Longrightarrow> ch \<noteq> backslash_char"
              by (auto simp: dquote_char_def squote_char_def backslash_char_def)
            have cb: "odd (countBackslashes input (i + 1)) =
                (ch = backslash_char \<and> \<not> odd (countBackslashes input i))"
              by (simp add: ch_def)
            have m: "modeOf input (i + 1) ?s =
                (if ch = dquote_char \<or> ch = squote_char then InStr ch False else InCode)"
            proof (cases "ch = dquote_char \<or> ch = squote_char")
              case True
              then have "?s' = s\<lparr>inString := True, stringChar := Some ch\<rparr>" unfolding opens by simp
              with True noline noblock notbs [OF True] show ?thesis
                unfolding modeOf_def cb by simp
            next
              case False
              then have "?s' = s" unfolding opens by auto
              with False nostr noline noblock show ?thesis by (simp add: modeOf_def)
            qed
            have sc: "scan InCode (ch # rest) =
                ch # scan (if ch = dquote_char \<or> ch = squote_char then InStr ch False else InCode) rest"
              using False rest_cases by (cases rest) auto
            have no: "\<not> (ch = CHR ''/'' \<and> nxt = ''/'')" "\<not> (ch = CHR ''/'' \<and> nxt = ''*'')"
              using False by auto
            from IH1 [OF ok] nostr noline noblock show ?thesis
              unfolding unfold mode here m sc by (simp add: Let_def rest_def out no)
          qed
        qed
      qed
    qed
  qed
qed

lemma stripJsonComments_scan: "stripJsonComments input = scan InCode input"
proof -
  let ?s = "\<lparr>outputStr = [], inString = False, stringChar = None,
              inLineComment = False, inBlockComment = False\<rparr>"
  have "stateOk ?s" by (simp add: stateOk_def)
  from stripLoop_scan [OF this, of 0 input] show ?thesis
    by (simp add: stripJsonComments_def modeOf_def)
qed

subsection \<open>The scanner on the pieces of an input\<close>

lemma scan_code_step:
  "\<not> (c = CHR ''/'' \<and> (prefix ''/'' x \<or> prefix ''*'' x)) \<Longrightarrow>
   scan InCode (c # x) =
     c # scan (if c = dquote_char \<or> c = squote_char then InStr c False else InCode) x"
  by (cases x) auto

lemma scan_plain:
  "c \<noteq> dquote_char \<Longrightarrow> c \<noteq> squote_char \<Longrightarrow>
   (c = CHR ''/'' \<longrightarrow> \<not> prefix ''/'' x \<and> \<not> prefix ''*'' x) \<Longrightarrow>
   scan InCode (c # x) = c # scan InCode x"
  by (cases x) auto

lemma trailingBackslashes_Nil [simp]: "trailingBackslashes [] = 0"
  by (simp add: trailingBackslashes_def)

lemma trailingBackslashes_snoc [simp]:
  "trailingBackslashes (b @ [c]) = (if c = backslash_char then Suc (trailingBackslashes b) else 0)"
  by (simp add: trailingBackslashes_def)

lemma scan_string_body:
  "\<forall>i<length body. body ! i = q \<longrightarrow> escapedAt body i \<Longrightarrow>
   scan (InStr q False) (body @ x) = body @ scan (InStr q (odd (trailingBackslashes body))) x"
proof (induction body arbitrary: x rule: rev_induct)
  case Nil
  show ?case by simp
next
  case (snoc c b)
  have inner: "\<forall>i<length b. b ! i = q \<longrightarrow> escapedAt b i"
  proof (intro allI impI)
    fix i assume i: "i < length b" and "b ! i = q"
    then have "(b @ [c]) ! i = q" by (simp add: nth_append)
    with snoc.prems i have "escapedAt (b @ [c]) i" by simp
    with i show "escapedAt b i" by (simp add: escapedAt_def)
  qed
  have last: "c = q \<longrightarrow> odd (trailingBackslashes b)"
    using snoc.prems [rule_format, of "length b"] by (simp add: escapedAt_def)
  have "scan (InStr q False) ((b @ [c]) @ x) = scan (InStr q False) (b @ c # x)" by simp
  also have "\<dots> = b @ scan (InStr q (odd (trailingBackslashes b))) (c # x)"
    by (rule snoc.IH [OF inner])
  also have "\<dots> = (b @ [c]) @ scan (InStr q (odd (trailingBackslashes (b @ [c])))) x"
    using last by auto
  finally show ?case .
qed

lemma scan_line_body:
  "newline_char \<notin> set body \<Longrightarrow> return_char \<notin> set body \<Longrightarrow>
   scan InLineC (body @ x) = scan InLineC x"
  by (induction body) auto

lemma no_close_tail: "\<not> sublist ''*/'' (c # cs) \<Longrightarrow> \<not> sublist ''*/'' cs"
  by (auto simp: sublist_Cons_right)

lemma scan_block_closed:
  "\<not> sublist ''*/'' body \<Longrightarrow> scan InBlockC (body @ ''*/'' @ x) = scan InCode x"
proof (induction body)
  case Nil
  show ?case by simp
next
  case (Cons c cs)
  have tail: "\<not> sublist ''*/'' cs" using Cons.prems by (rule no_close_tail)
  have nohead: "\<not> prefix ''*/'' (c # cs)" using Cons.prems by (auto simp: sublist_Cons_right)
  obtain d ds where d: "cs @ ''*/'' @ x = d # ds" by (cases "cs @ ''*/'' @ x") auto
  have "\<not> (c = CHR ''*'' \<and> d = CHR ''/'')"
  proof
    assume a: "c = CHR ''*'' \<and> d = CHR ''/''"
    show False
    proof (cases cs)
      case Nil with d a show False by simp
    next
      case (Cons e es) with d a nohead show False by auto
    qed
  qed
  then have "scan InBlockC (c # d # ds) = scan InBlockC (d # ds)" by auto
  with Cons.IH [OF tail] d show ?case by simp
qed

lemma scan_block_open:
  "\<not> sublist ''*/'' body \<Longrightarrow> scan InBlockC body = []"
proof (induction body)
  case Nil
  show ?case by simp
next
  case (Cons c cs)
  have tail: "\<not> sublist ''*/'' cs" using Cons.prems by (rule no_close_tail)
  have nohead: "\<not> prefix ''*/'' (c # cs)" using Cons.prems by (auto simp: sublist_Cons_right)
  show ?case
  proof (cases cs)
    case Nil then show ?thesis by simp
  next
    case (Cons d ds)
    with nohead have "\<not> (c = CHR ''*'' \<and> d = CHR ''/'')" by auto
    then have "scan InBlockC (c # d # ds) = scan InBlockC (d # ds)" by auto
    with Cons.IH [OF tail] Cons show ?thesis by simp
  qed
qed

lemma sourceText_simps [simp]:
  "sourceText [] = []" "sourceText (seg # segs) = sourceOf seg @ sourceText segs"
  by (simp_all add: sourceText_def)

lemma keptText_simps [simp]:
  "keptText [] = []" "keptText (seg # segs) = keptOf seg @ keptText segs"
  by (simp_all add: keptText_def)

lemma quote_not_slash:
  "q = dquote_char \<or> q = squote_char \<Longrightarrow> q \<noteq> CHR ''/''"
  by (auto simp: dquote_char_def squote_char_def)

lemma eol_plain:
  "c = newline_char \<or> c = return_char \<Longrightarrow>
   c \<noteq> dquote_char \<and> c \<noteq> squote_char \<and> c \<noteq> CHR ''/''"
  by (auto simp: dquote_char_def squote_char_def newline_char_def return_char_def)

lemma scan_wellFormed:
  "wellFormed segs \<Longrightarrow> scan InCode (sourceText segs) = keptText segs"
proof (induction segs rule: wellFormed.induct)
  case 1
  show ?case by simp
next
  case (2 c rest)
  then have "scan InCode (c # sourceText rest) = c # scan InCode (sourceText rest)"
    by (intro scan_plain) simp_all
  with 2 show ?case by (simp add: keptOf_def)
next
  case (3 q body closed rest)
  let ?x = "sourceText rest"
  from "3.prems" have q: "q = dquote_char \<or> q = squote_char"
    and body: "\<forall>i<length body. body ! i = q \<longrightarrow> escapedAt body i"
    and rest: "wellFormed rest"
    by (simp_all add: list_all_iff)
  note nq = quote_not_slash [OF q]
  show ?case
  proof (cases closed)
    case True
    with "3.prems" have even: "\<not> odd (trailingBackslashes body)" by (simp add: escapedAt_def)
    have "scan InCode (q # body @ q # ?x) = q # scan (InStr q False) (body @ q # ?x)"
      using q nq by (subst scan_code_step) auto
    also have "\<dots> = q # body @ scan (InStr q (odd (trailingBackslashes body))) (q # ?x)"
      by (simp add: scan_string_body [OF body])
    also have "\<dots> = q # body @ q # scan InCode ?x"
      using even by simp
    finally show ?thesis using True "3.IH" [OF rest] by (simp add: keptOf_def)
  next
    case False
    with "3.prems" have r: "rest = []" by simp
    have "scan InCode (q # body) = q # scan (InStr q False) (body @ [])"
      using q nq by (subst scan_code_step) auto
    also have "\<dots> = q # body"
      by (simp only: scan_string_body [OF body]) simp
    finally show ?thesis using False r by (simp add: keptOf_def)
  qed
next
  case (4 body rest)
  let ?x = "sourceText rest"
  from "4.prems" have body: "newline_char \<notin> set body" "return_char \<notin> set body"
    and rest: "wellFormed rest"
    and nxt: "rest = [] \<or> hd rest = Plain newline_char \<or> hd rest = Plain return_char"
    by simp_all
  have "scan InCode (CHR ''/'' # CHR ''/'' # body @ ?x) = scan InLineC (body @ ?x)" by simp
  also have "\<dots> = scan InLineC ?x" by (rule scan_line_body [OF body])
  also have "\<dots> = scan InCode ?x"
  proof (cases rest)
    case Nil then show ?thesis by simp
  next
    case (Cons seg segs)
    with nxt obtain c where c: "seg = Plain c" "c = newline_char \<or> c = return_char" by auto
    from eol_plain [OF c(2)] have "scan InCode (c # sourceText segs) = c # scan InCode (sourceText segs)"
      by (intro scan_plain) simp_all
    with Cons c show ?thesis by auto
  qed
  finally show ?case using "4.IH" [OF rest] by (simp add: keptOf_def)
next
  case (5 body closed rest)
  let ?x = "sourceText rest"
  from "5.prems" have body: "\<not> sublist ''*/'' body" and rest: "wellFormed rest"
    and last: "closed \<or> rest = []"
    by (simp_all add: includes_str_def indexOf_None_sublist)
  show ?case
  proof (cases closed)
    case True
    have "scan InCode (CHR ''/'' # CHR ''*'' # body @ ''*/'' @ ?x) = scan InBlockC (body @ ''*/'' @ ?x)"
      by simp
    also have "\<dots> = scan InCode ?x" by (rule scan_block_closed [OF body])
    finally show ?thesis using True "5.IH" [OF rest] by (simp add: keptOf_def)
  next
    case False
    with last have r: "rest = []" by simp
    have "scan InCode (CHR ''/'' # CHR ''*'' # body) = scan InBlockC body"
      by (cases body) simp_all
    with scan_block_open [OF body] False r show ?thesis by (simp add: keptOf_def)
  qed
qed

lemma keptText_no_comment:
  "\<forall>seg\<in>set segs. \<not> isComment seg \<Longrightarrow> keptText segs = sourceText segs"
  by (induction segs) (simp_all add: keptOf_def)

subsection \<open>Every input has its pieces\<close>

lemma splitString_facts:
  "splitString q esc s = (body, closed, rest) \<Longrightarrow> esc = odd (trailingBackslashes p) \<Longrightarrow>
   s = body @ (if closed then q # rest else []) \<and> (\<not> closed \<longrightarrow> rest = []) \<and>
   (\<forall>i<length body. body ! i = q \<longrightarrow> odd (trailingBackslashes (p @ take i body))) \<and>
   (closed \<longrightarrow> \<not> odd (trailingBackslashes (p @ body)))"
proof (induction s arbitrary: esc body closed rest p)
  case Nil
  then show ?case by simp
next
  case (Cons c cs)
  show ?case
  proof (cases "c = q \<and> \<not> esc")
    case True
    with Cons.prems show ?thesis by auto
  next
    case False
    obtain b cl r where sp: "splitString q (c = backslash_char \<and> \<not> esc) cs = (b, cl, r)"
      by (cases "splitString q (c = backslash_char \<and> \<not> esc) cs") auto
    with False Cons.prems(1) have eqs: "body = c # b" "closed = cl" "rest = r" by auto
    have esc': "(c = backslash_char \<and> \<not> esc) = odd (trailingBackslashes (p @ [c]))"
      using Cons.prems(2) by simp
    note IH = Cons.IH [OF sp esc']
    have first: "c = q \<longrightarrow> odd (trailingBackslashes p)"
      using False Cons.prems(2) by simp
    have nths: "\<forall>i<length (c # b). (c # b) ! i = q \<longrightarrow> odd (trailingBackslashes (p @ take i (c # b)))"
    proof (intro allI impI)
      fix i assume i: "i < length (c # b)" and at: "(c # b) ! i = q"
      show "odd (trailingBackslashes (p @ take i (c # b)))"
      proof (cases i)
        case 0
        with at first show ?thesis by simp
      next
        case (Suc j)
        with i at have "j < length b" "b ! j = q" by simp_all
        with IH have "odd (trailingBackslashes ((p @ [c]) @ take j b))" by blast
        with Suc show ?thesis by simp
      qed
    qed
    from IH have "cs = b @ (if cl then q # r else [])" "\<not> cl \<longrightarrow> r = []"
      "cl \<longrightarrow> \<not> odd (trailingBackslashes ((p @ [c]) @ b))" by blast+
    with nths show ?thesis unfolding eqs by simp
  qed
qed

lemma splitBlock_facts:
  "splitBlock s = (body, closed, rest) \<Longrightarrow>
   s = body @ (if closed then ''*/'' @ rest else []) \<and> (\<not> closed \<longrightarrow> rest = []) \<and>
   \<not> sublist ''*/'' body"
proof (induction s arbitrary: body closed rest)
  case Nil
  then show ?case by simp
next
  case (Cons c cs)
  show ?case
  proof (cases "prefix ''*/'' (c # cs)")
    case True
    then obtain r where "cs = CHR ''/'' # r" "c = CHR ''*''" by (cases cs) auto
    with True Cons.prems show ?thesis by auto
  next
    case False
    obtain b cl r where sp: "splitBlock cs = (b, cl, r)"
      by (cases "splitBlock cs") auto
    with False Cons.prems have eqs: "body = c # b" "closed = cl" "rest = r" by auto
    from Cons.IH [OF sp] have IH: "cs = b @ (if cl then ''*/'' @ r else [])" "\<not> cl \<longrightarrow> r = []"
      "\<not> sublist ''*/'' b" by blast+
    have "\<not> prefix ''*/'' (c # b)"
    proof
      assume "prefix ''*/'' (c # b)"
      then obtain b' where "c = CHR ''*''" "b = CHR ''/'' # b'" by (cases b) auto
      with IH(1) have "prefix ''*/'' (c # cs)" by simp
      with False show False ..
    qed
    with IH(3) have "\<not> sublist ''*/'' (c # b)" by (simp add: sublist_Cons_right)
    with IH(1,2) show ?thesis unfolding eqs by simp
  qed
qed

lemma wellFormed_starts_with_eol:
  assumes "wellFormed segs" "sourceText segs = c # x" "c = newline_char \<or> c = return_char"
  shows "hd segs = Plain c"
proof (cases segs)
  case Nil
  with assms(2) show ?thesis by simp
next
  case (Cons seg rest)
  note e = eol_plain [OF assms(3)]
  show ?thesis
  proof (cases seg)
    case (Plain d)
    with Cons assms(2) show ?thesis by simp
  next
    case (StringLit q body closed)
    with Cons assms(1,2) e show ?thesis by auto
  next
    case (LineComment body)
    with Cons assms(2) e show ?thesis by simp
  next
    case (BlockComment body closed)
    with Cons assms(2) e show ?thesis by simp
  qed
qed

lemma line_cut:
  "s = takeWhile notEol s @ dropWhile notEol s \<and>
   newline_char \<notin> set (takeWhile notEol s) \<and> return_char \<notin> set (takeWhile notEol s) \<and>
   (dropWhile notEol s = [] \<or>
    (\<exists>c x. dropWhile notEol s = c # x \<and> (c = newline_char \<or> c = return_char)))"
proof -
  have "\<forall>c\<in>set (takeWhile notEol s). notEol c" by (auto dest: set_takeWhileD)
  then have a: "newline_char \<notin> set (takeWhile notEol s)" "return_char \<notin> set (takeWhile notEol s)"
    by (auto simp: notEol_def)
  have b: "dropWhile notEol s = [] \<or>
    (\<exists>c x. dropWhile notEol s = c # x \<and> (c = newline_char \<or> c = return_char))"
  proof (cases "dropWhile notEol s")
    case Nil then show ?thesis by simp
  next
    case (Cons c x)
    then have "\<not> notEol c" using hd_dropWhile [of notEol s] by auto
    with Cons show ?thesis by (auto simp: notEol_def)
  qed
  from a b show ?thesis by simp
qed

lemma wellFormed_exists: "\<exists>segs. wellFormed segs \<and> sourceText segs = input"
proof (induction "length input" arbitrary: input rule: less_induct)
  case less
  show ?case
  proof (cases input)
    case Nil
    have "wellFormed [] \<and> sourceText [] = []" by simp
    with Nil show ?thesis by blast
  next
    case (Cons c cs)
    have IH: "\<exists>segs. wellFormed segs \<and> sourceText segs = rest" if "length rest \<le> length cs" for rest
      using less.hyps [of rest] that Cons by simp
    consider (line) "c = CHR ''/''" "prefix ''/'' cs"
      | (block) "c = CHR ''/''" "prefix ''*'' cs"
      | (str) "c = dquote_char \<or> c = squote_char"
      | (plain) "c \<noteq> dquote_char" "c \<noteq> squote_char"
          "c = CHR ''/'' \<longrightarrow> \<not> prefix ''/'' cs \<and> \<not> prefix ''*'' cs"
      by blast
    then show ?thesis
    proof cases
      case line
      then obtain s where cs: "cs = CHR ''/'' # s" by (cases cs) auto
      let ?body = "takeWhile notEol s" and ?rest = "dropWhile notEol s"
      note cut = line_cut [of s]
      have "length ?rest \<le> length cs"
        unfolding cs by (rule order_trans [OF length_dropWhile_le]) simp
      from IH [OF this] obtain segs where segs: "wellFormed segs" "sourceText segs = ?rest" by blast
      have nxt: "segs = [] \<or> hd segs = Plain newline_char \<or> hd segs = Plain return_char"
      proof (cases ?rest)
        case Nil
        with segs(2) have "segs = [] \<or> sourceOf (hd segs) = []" by (cases segs) auto
        moreover have "sourceOf seg \<noteq> []" for seg by (cases seg) auto
        ultimately show ?thesis by blast
      next
        case (Cons d x)
        with cut have d: "d = newline_char \<or> d = return_char" by auto
        from wellFormed_starts_with_eol [OF segs(1) segs(2) [unfolded Cons] d] d
        show ?thesis by auto
      qed
      have "wellFormed (LineComment ?body # segs)" using cut segs(1) nxt by simp
      moreover have "sourceText (LineComment ?body # segs) = input"
        using cut segs(2) Cons cs line(1) by simp
      ultimately show ?thesis by blast
    next
      case block
      then obtain s where cs: "cs = CHR ''*'' # s" by (cases cs) auto
      obtain body closed rest where sp: "splitBlock s = (body, closed, rest)"
        by (cases "splitBlock s") auto
      note f = splitBlock_facts [OF sp]
      from f have "length rest \<le> length cs" unfolding cs by (cases closed) auto
      from IH [OF this] obtain segs where segs: "wellFormed segs" "sourceText segs = rest" by blast
      let ?segs = "BlockComment body closed # (if closed then segs else [])"
      have "wellFormed ?segs" using f segs(1)
        by (simp add: includes_str_def indexOf_None_sublist)
      moreover have "sourceText ?segs = input"
        using f segs(2) Cons cs block(1) by (cases closed) auto
      ultimately show ?thesis by blast
    next
      case str
      obtain body closed rest where sp: "splitString c False cs = (body, closed, rest)"
        by (cases "splitString c False cs") auto
      have "False = odd (trailingBackslashes [])" by simp
      note f = splitString_facts [OF sp this]
      from f have "length rest \<le> length cs" by (cases closed) auto
      from IH [OF this] obtain segs where segs: "wellFormed segs" "sourceText segs = rest" by blast
      let ?segs = "StringLit c body closed # (if closed then segs else [])"
      have "wellFormed ?segs" using f segs(1) str
        by (auto simp: list_all_iff escapedAt_def)
      moreover have "sourceText ?segs = input"
        using f segs(2) Cons by (cases closed) auto
      ultimately show ?thesis by blast
    next
      case plain
      from IH [of cs] obtain segs where segs: "wellFormed segs" "sourceText segs = cs" by auto
      have "wellFormed (Plain c # segs)" using plain segs by simp
      moreover have "sourceText (Plain c # segs) = input" using segs(2) Cons by simp
      ultimately show ?thesis by blast
    qed
  qed
qed

section \<open>Claims\<close>

text \<open>
  C1. Every input of \<^verbatim>\<open>stripJsonComments\<close> reads as a sequence of pieces:
  plain characters, string literals, line comments and block comments. For each such reading
  the result is the input with the comment pieces left out: a line comment goes from
  \<^verbatim>\<open>//\<close> up to, and not including, the line feed or carriage return that ends it
  (or to the end of the input); a block comment goes from \<^verbatim>\<open>/*\<close> through the first
  \<^verbatim>\<open>*/\<close> after it (or to the end of the input); a string literal, between double or
  between single quotes, with a quote inside it escaped by an odd number of backslashes, is
  copied whole, whatever it contains; and an input with no comment piece is returned as it is.
\<close>

theorem stripJsonComments_removes_comments_outside_strings:
  "(\<exists>segs. wellFormed segs \<and> sourceText segs = input) \<and>
   (wellFormed segs \<longrightarrow>
      stripJsonComments (sourceText segs) = keptText segs \<and>
      ((\<forall>seg\<in>set segs. \<not> isComment seg) \<longrightarrow>
         stripJsonComments (sourceText segs) = sourceText segs))"
proof (intro conjI impI)
  show "\<exists>segs. wellFormed segs \<and> sourceText segs = input"
    by (rule wellFormed_exists)
next
  assume "wellFormed segs"
  then show "stripJsonComments (sourceText segs) = keptText segs"
    by (simp add: stripJsonComments_scan scan_wellFormed)
next
  assume "wellFormed segs" "\<forall>seg\<in>set segs. \<not> isComment seg"
  then show "stripJsonComments (sourceText segs) = sourceText segs"
    by (simp add: stripJsonComments_scan scan_wellFormed keptText_no_comment)
qed

text \<open>
  The theorem at a theme with an escaped quote and comment openers inside a string literal,
  a line comment, a block comment over two lines and a line comment at the end of the input,
  and at the same theme without its comments.
\<close>

theorem stripJsonComments_removes_comments_outside_strings_witness:
  "wellFormed commentedTheme \<and>
   sourceText commentedTheme =
     ''{'' @ [dquote_char] @ ''a//b'' @ [backslash_char, dquote_char] @ ''/*c*/'' @ [dquote_char] @
     '':1,// note'' @ [newline_char] @ [squote_char] @ ''k'' @ [squote_char] @
     '':2/3/*two'' @ [newline_char] @ ''lines **/}//end'' \<and>
   stripJsonComments (sourceText commentedTheme) =
     ''{'' @ [dquote_char] @ ''a//b'' @ [backslash_char, dquote_char] @ ''/*c*/'' @ [dquote_char] @
     '':1,'' @ [newline_char] @ [squote_char] @ ''k'' @ [squote_char] @ '':2/3}'' \<and>
   wellFormed plainTheme \<and> filter isComment plainTheme = [] \<and>
   stripJsonComments (sourceText plainTheme) = sourceText plainTheme"
proof -
  have wf: "wellFormed commentedTheme" by code_simp
  have wf': "wellFormed plainTheme" by code_simp
  have none: "\<forall>seg\<in>set plainTheme. \<not> isComment seg" by (simp add: plainTheme_def)
  have src: "sourceText commentedTheme =
     ''{'' @ [dquote_char] @ ''a//b'' @ [backslash_char, dquote_char] @ ''/*c*/'' @ [dquote_char] @
     '':1,// note'' @ [newline_char] @ [squote_char] @ ''k'' @ [squote_char] @
     '':2/3/*two'' @ [newline_char] @ ''lines **/}//end''"
    by code_simp
  have kept: "keptText commentedTheme =
     ''{'' @ [dquote_char] @ ''a//b'' @ [backslash_char, dquote_char] @ ''/*c*/'' @ [dquote_char] @
     '':1,'' @ [newline_char] @ [squote_char] @ ''k'' @ [squote_char] @ '':2/3}''"
    by code_simp
  note inst = stripJsonComments_removes_comments_outside_strings
    [where segs = commentedTheme and input = "[]", THEN conjunct2, rule_format, THEN conjunct1]
  note inst' = stripJsonComments_removes_comments_outside_strings
    [where segs = plainTheme and input = "[]", THEN conjunct2, rule_format, THEN conjunct2, rule_format]
  have none': "filter isComment plainTheme = []" by (simp add: plainTheme_def)
  from inst [OF wf] inst' [OF wf' none [rule_format]] wf wf' none' src kept show ?thesis
    by simp
qed

text \<open>
  C2. \<^verbatim>\<open>injectStyle\<close> puts the markup, followed by a line feed, immediately before the
  first occurrence of \<^verbatim>\<open></head>\<close>: whenever the HTML splits as \<open>pre @ ''</head>'' @ post\<close>
  with no earlier place where \<^verbatim>\<open></head>\<close> starts, the result is
  \<open>pre @ markup @ newline @ ''</head>'' @ post\<close>.  When \<^verbatim>\<open></head>\<close> does not occur in the
  HTML, the markup is appended at the end of the document: the result is the whole HTML,
  then the markup, set off by a line feed before and after it.
\<close>

theorem injectStyle_before_head_or_appended:
  "(html = pre @ ''</head>'' @ post \<and> (\<forall>j<length pre. \<not> prefix ''</head>'' (drop j html)) \<longrightarrow>
      injectStyle html markup = pre @ markup @ [newline_char] @ ''</head>'' @ post) \<and>
   (\<not> sublist ''</head>'' html \<longrightarrow>
      injectStyle html markup = html @ [newline_char] @ markup @ [newline_char])"
proof (intro conjI impI)
  assume h: "html = pre @ ''</head>'' @ post \<and>
    (\<forall>j<length pre. \<not> prefix ''</head>'' (drop j html))"
  then have "indexOf ''</head>'' html = Some (length pre)"
    unfolding indexOf_Some_iff by auto
  moreover have "take (length pre) html = pre" "drop (length pre) html = ''</head>'' @ post"
    using h by auto
  ultimately show "injectStyle html markup = pre @ markup @ [newline_char] @ ''</head>'' @ post"
    by (simp add: injectStyle_def)
next
  assume "\<not> sublist ''</head>'' html"
  then have "indexOf ''</head>'' html = None"
    by (simp add: indexOf_None_sublist)
  then show "injectStyle html markup = html @ [newline_char] @ markup @ [newline_char]"
    by (simp add: injectStyle_def)
qed

theorem injectStyle_before_head_or_appended_witness:
  "injectStyle ''<head><title>x</title></head><body></body>'' ''<style>s</style>'' =
     ''<head><title>x</title><style>s</style>\<newline></head><body></body>'' \<and>
   injectStyle ''<p>no head</p>'' ''<style>s</style>'' =
     ''<p>no head</p>\<newline><style>s</style>\<newline>''"
proof -
  let ?html = "''<head><title>x</title></head><body></body>''"
  let ?pre = "''<head><title>x</title>''"
  have "indexOf ''</head>'' ?html = Some (length ?pre)"
    by simp
  then have first: "\<forall>j<length ?pre. \<not> prefix ''</head>'' (drop j ?html)"
    unfolding indexOf_Some_iff by blast
  have split: "?html = ?pre @ ''</head>'' @ ''<body></body>''"
    by simp
  have "injectStyle ?html ''<style>s</style>'' =
      ?pre @ ''<style>s</style>'' @ [newline_char] @ ''</head>'' @ ''<body></body>''"
    using injectStyle_before_head_or_appended
      [of ?html ?pre "''<body></body>''" "''<style>s</style>''", THEN conjunct1] split first
    by blast
  moreover have "\<not> sublist ''</head>'' ''<p>no head</p>''"
    using indexOf_None_sublist [of "''</head>''" "''<p>no head</p>''"] by simp
  then have "injectStyle ''<p>no head</p>'' ''<style>s</style>'' =
      ''<p>no head</p>'' @ [newline_char] @ ''<style>s</style>'' @ [newline_char]"
    using injectStyle_before_head_or_appended
      [of "''<p>no head</p>''" "[]" "[]" "''<style>s</style>''", THEN conjunct2]
    by blast
  ultimately show ?thesis
    by (simp add: newline_char_def)
qed


text \<open>
  C6. \<^verbatim>\<open>handleRemoveThemes\<close> deletes theme files and rewrites package.json only when the
  answer to its modal dialog is \<^verbatim>\<open>Remove\<close>, and \<^verbatim>\<open>handleRestorePackageJsonBackup\<close>
  overwrites package.json only when the answer to its modal dialog is \<^verbatim>\<open>Restore\<close>: with
  any other answer, and with the dialog dismissed, the handler returns the state it was
  given, whatever was picked.
\<close>

theorem destructive_theme_actions_need_confirmation:
  "(confirmation \<noteq> Some ''Remove'' \<longrightarrow> handleRemoveThemes h picked confirmation w = w) \<and>
   (confirmation \<noteq> Some ''Restore'' \<longrightarrow> handleRestorePackageJsonBackup h confirmation w = w)"
  by (simp add: handleRemoveThemes_def handleRestorePackageJsonBackup_def Let_def split: option.splits)

theorem destructive_theme_actions_need_confirmation_witness:
  "handleRemoveThemes demoHost (Some [0]) None installedWorld = installedWorld \<and>
   handleRestorePackageJsonBackup demoHost (Some ''Cancel'') installedWorld = installedWorld \<and>
   readFileSync (handleRemoveThemes demoHost (Some [0]) (Some ''Remove'') installedWorld)
       ''/ext/themes/Dark.json'' = None \<and>
   readFileSync (handleRestorePackageJsonBackup demoHost (Some ''Restore'') installedWorld)
       ''/ext/package.json'' = Some ''{}''"
proof -
  have "(None :: string option) \<noteq> Some ''Remove''" "Some ''Cancel'' \<noteq> Some ''Restore''"
    by simp_all
  then have "handleRemoveThemes demoHost (Some [0]) None installedWorld = installedWorld"
    "handleRestorePackageJsonBackup demoHost (Some ''Cancel'') installedWorld = installedWorld"
    using destructive_theme_actions_need_confirmation [of None demoHost "Some [0]" installedWorld]
      destructive_theme_actions_need_confirmation [of "Some ''Cancel''" demoHost "Some [0]" installedWorld]
    by blast+
  moreover have "readFileSync (handleRemoveThemes demoHost (Some [0]) (Some ''Remove'') installedWorld)
      ''/ext/themes/Dark.json'' = None"
    by code_simp
  moreover have "readFileSync (handleRestorePackageJsonBackup demoHost (Some ''Restore'') installedWorld)
      ''/ext/package.json'' = Some ''{}''"
    by code_simp
  ultimately show ?thesis by blast
qed

text \<open>
  C4, at a file that is imported but not registered.  The file \<^verbatim>\<open>/home/u/Dark.JSON\<close> holds
  \<^verbatim>\<open>{}\<close>.  Its extension, put to lower case, is \<^verbatim>\<open>.json\<close>, so the import keeps the name: the
  normalized theme is written to \<^verbatim>\<open>themes/Dark.JSON\<close>.  The scan of the themes directory
  keeps the names that end in \<^verbatim>\<open>.json\<close> as they are spelled, so the file is passed over
  and the package.json that is written has no entry for it.  The same text imported from
  \<^verbatim>\<open>/home/u/Dark.json\<close> is registered.
\<close>

theorem import_of_uppercase_JSON_is_not_registered:
  "readFileSync (handleImportThemes demoHost (Some [(''/home/u/Dark.JSON'', None)]) None importWorld)
       ''/ext/themes/Dark.JSON'' =
     Some (demoStringify (JObj [(''name'', JStr (THEME_LABEL_PREFIX @ ''Dark'')), (''type'', JStr ''dark'')])) \<and>
   readFileSync (handleImportThemes demoHost (Some [(''/home/u/Dark.JSON'', None)]) None importWorld)
       ''/ext/package.json'' =
     Some (demoStringify (withThemes [])) \<and>
   readFileSync (handleImportThemes demoHost (Some [(''/home/u/Dark.json'', None)]) None importWorld)
       ''/ext/package.json'' =
     Some (demoStringify (withThemes [managedEntry (THEME_LABEL_PREFIX @ ''Dark'') ''Dark.json'']))"
  by code_simp

text \<open>
  C9, at a removal that deletes a file outside the themes directory.  The themes directory
  \<^verbatim>\<open>/ext/themes\<close> holds a file whose name is \<^verbatim>\<open>..\themes-x\f.json\<close>, a single name where the
  backslash is no separator.  The scan turns the backslashes of its relative path into
  slashes, which gives \<^verbatim>\<open>themes/../themes-x/f.json\<close>; joined to the extension root this is
  \<^verbatim>\<open>/ext/themes-x/f.json\<close>, a path that starts with the text \<^verbatim>\<open>/ext/themes\<close> and lies in
  another directory.  The confirmed removal of the theme unlinks that file and leaves the
  theme file itself in place.
\<close>

theorem removal_unlinks_file_outside_themes_directory:
  "entryPath (hd (readImportedThemesFromDisk demoHost escapeWorld)) = ''themes/../themes-x/f.json'' \<and>
   childName ''/ext/themes'' ''/ext/themes-x/f.json'' = None \<and>
   readFileSync escapeWorld ''/ext/themes-x/f.json'' = Some ''{}'' \<and>
   readFileSync (handleRemoveThemes demoHost (Some [0]) (Some ''Remove'') escapeWorld)
       ''/ext/themes-x/f.json'' = None \<and>
   readFileSync (handleRemoveThemes demoHost (Some [0]) (Some ''Remove'') escapeWorld)
       (''/ext/themes/'' @ escapingName) = Some ''{}''"
  by code_simp


text \<open>
  C8, as the sources have it.  A backup of package.json is kept and can be restored.
  \<^verbatim>\<open>writePackageJson\<close> copies package.json to \<^verbatim>\<open>package.json.sh1ffy.bak\<close> before it
  rewrites it for the first time, that is when package.json exists and no backup exists
  yet, and it leaves an existing backup as it is.  When a backup exists and the answer is
  \<^verbatim>\<open>Restore\<close>, \<^verbatim>\<open>handleRestorePackageJsonBackup\<close> overwrites package.json with the text of
  the backup and changes no other file.
\<close>

theorem package_json_backup_and_restore:
  "(readFileSync w (pathJoin [extensionRoot h, ''package.json'']) = Some old \<and>
    readFileSync w (pathJoin [extensionRoot h, PACKAGE_JSON_BACKUP]) = None \<longrightarrow>
      readFileSync (writePackageJson h pkg w) (pathJoin [extensionRoot h, PACKAGE_JSON_BACKUP]) = Some old) \<and>
   (readFileSync w (pathJoin [extensionRoot h, PACKAGE_JSON_BACKUP]) = Some saved \<longrightarrow>
      readFileSync (writePackageJson h pkg w) (pathJoin [extensionRoot h, PACKAGE_JSON_BACKUP]) = Some saved \<and>
      readFileSync (handleRestorePackageJsonBackup h (Some ''Restore'') w)
          (pathJoin [extensionRoot h, ''package.json'']) = Some saved \<and>
      (\<forall>p. p \<noteq> pathJoin [extensionRoot h, ''package.json''] \<longrightarrow>
           readFileSync (handleRestorePackageJsonBackup h (Some ''Restore'') w) p = readFileSync w p))"
  using backup_path_differs [of "extensionRoot h"]
  by (auto simp: read_writePackageJson handleRestorePackageJsonBackup_def
      Let_def exists_read read_write)

theorem package_json_backup_and_restore_witness:
  "readFileSync (writePackageJson demoHost (withThemes []) importWorld) ''/ext/package.json.sh1ffy.bak'' = Some ''{}'' \<and>
   readFileSync (writePackageJson demoHost (withThemes []) installedWorld) ''/ext/package.json.sh1ffy.bak'' = Some ''{}'' \<and>
   readFileSync (handleRestorePackageJsonBackup demoHost (Some ''Restore'') installedWorld)
       ''/ext/package.json'' = Some ''{}'' \<and>
   readFileSync (handleRestorePackageJsonBackup demoHost (Some ''Restore'') installedWorld)
       ''/ext/themes/Dark.json'' = readFileSync installedWorld ''/ext/themes/Dark.json''"
proof -
  have paths: "pathJoin [extensionRoot demoHost, ''package.json''] = ''/ext/package.json''"
    "pathJoin [extensionRoot demoHost, PACKAGE_JSON_BACKUP] = ''/ext/package.json.sh1ffy.bak''"
    by code_simp+
  have fresh: "readFileSync importWorld ''/ext/package.json'' = Some ''{}''"
    "readFileSync importWorld ''/ext/package.json.sh1ffy.bak'' = None"
    by code_simp+
  have kept: "readFileSync installedWorld ''/ext/package.json.sh1ffy.bak'' = Some ''{}''"
    by code_simp
  have other: "''/ext/themes/Dark.json'' \<noteq> ''/ext/package.json''"
    by simp
  note fresh_inst = package_json_backup_and_restore
    [where w = importWorld and h = demoHost and old = "''{}''" and pkg = "withThemes []",
     unfolded paths, THEN conjunct1, rule_format]
  note kept_inst = package_json_backup_and_restore
    [where w = installedWorld and h = demoHost and saved = "''{}''" and pkg = "withThemes []",
     unfolded paths, THEN conjunct2, rule_format, OF kept]
  have "readFileSync (writePackageJson demoHost (withThemes []) importWorld)
      ''/ext/package.json.sh1ffy.bak'' = Some ''{}''"
    using fresh_inst fresh by simp
  moreover have "readFileSync (writePackageJson demoHost (withThemes []) installedWorld)
        ''/ext/package.json.sh1ffy.bak'' = Some ''{}''"
    using kept_inst by simp
  moreover have "readFileSync (handleRestorePackageJsonBackup demoHost (Some ''Restore'') installedWorld)
        ''/ext/package.json'' = Some ''{}''"
    using kept_inst by simp
  moreover have "readFileSync (handleRestorePackageJsonBackup demoHost (Some ''Restore'') installedWorld)
        ''/ext/themes/Dark.json'' = readFileSync installedWorld ''/ext/themes/Dark.json''"
    using kept_inst other by simp
  ultimately show ?thesis by simp
qed

text \<open>
  The repair action on a package.json without a backup: the earlier text is kept in the
  backup, and the restore action brings it back.
\<close>

theorem package_json_backup_and_restore_counterexample:
  "readFileSync importWorld ''/ext/package.json.sh1ffy.bak'' = None \<and>
   readFileSync importWorld ''/ext/package.json'' = Some ''{}'' \<and>
   readFileSync (handleRepairContributions demoHost importWorld) ''/ext/package.json'' =
     Some (demoStringify (withThemes [])) \<and>
   readFileSync (handleRepairContributions demoHost importWorld) ''/ext/package.json.sh1ffy.bak'' = Some ''{}'' \<and>
   readFileSync (handleRestorePackageJsonBackup demoHost (Some ''Restore'')
                   (handleRepairContributions demoHost importWorld)) ''/ext/package.json'' = Some ''{}''"
  by code_simp

text \<open>
  C10, as the sources have it.  For a package object whose \<^verbatim>\<open>contributes\<close> is not an array,
  the \<^verbatim>\<open>contributes.themes\<close> that \<^verbatim>\<open>syncPackageJsonThemes\<close> writes are, in their original
  order, the earlier entries that are truthy and whose \<^verbatim>\<open>_sh1ffyTag\<close> is not
  \<^verbatim>\<open>sh1ffy-managed\<close>, followed by one fresh entry for each theme on disk; falsy entries such
  as \<^verbatim>\<open>null\<close> go together with the tagged ones.  When the host parses the written text
  back to the written value and the themes directory lists as before, a second run
  returns the state the first run returned: package.json has the same content.
\<close>

theorem sync_keeps_foreign_entries_and_is_idempotent:
  "(syncContributions (JObj props) ts = Inr pkg' \<and> (\<forall>cs. map_of props ''contributes'' \<noteq> Some (JArr cs)) \<longrightarrow>
      contributedThemes pkg' =
        filter (\<lambda>entry. truthy entry \<and> getProp entry ''_sh1ffyTag'' \<noteq> Inr (Some (JStr ''sh1ffy-managed'')))
          (contributedThemes (JObj props)) @
        map contributionOf ts) \<and>
   (readPackageJson h w = Inr pkg \<and>
    syncContributions pkg (readImportedThemesFromDisk h w) = Inr pkg2 \<and>
    parseJSON h (stringifyJSON h pkg2) = Some pkg2 \<and>
    readImportedThemesFromDisk h (writePackageJson h pkg2 w) = readImportedThemesFromDisk h w \<longrightarrow>
      syncPackageJsonThemes h w = Inr (writePackageJson h pkg2 w) \<and>
      syncPackageJsonThemes h (writePackageJson h pkg2 w) = Inr (writePackageJson h pkg2 w))"
proof (intro conjI impI)
  assume "syncContributions (JObj props) ts = Inr pkg' \<and> (\<forall>cs. map_of props ''contributes'' \<noteq> Some (JArr cs))"
  then have "contributedThemes pkg' = filter keptEntry (contributedThemes (JObj props)) @ map contributionOf ts"
    by (simp add: syncContributions_themes)
  moreover have "keptEntry = (\<lambda>entry. truthy entry \<and> getProp entry ''_sh1ffyTag'' \<noteq> Inr (Some (JStr ''sh1ffy-managed'')))"
    by (simp add: keptEntry_def SH1FFY_THEME_TAG_def fun_eq_iff)
  ultimately show "contributedThemes pkg' =
        filter (\<lambda>entry. truthy entry \<and> getProp entry ''_sh1ffyTag'' \<noteq> Inr (Some (JStr ''sh1ffy-managed'')))
          (contributedThemes (JObj props)) @ map contributionOf ts"
    by simp
next
  assume h: "readPackageJson h w = Inr pkg \<and>
    syncContributions pkg (readImportedThemesFromDisk h w) = Inr pkg2 \<and>
    parseJSON h (stringifyJSON h pkg2) = Some pkg2 \<and>
    readImportedThemesFromDisk h (writePackageJson h pkg2 w) = readImportedThemesFromDisk h w"
  let ?w1 = "writePackageJson h pkg2 w"
  from h show first: "syncPackageJsonThemes h w = Inr ?w1"
    by (simp add: syncPackageJsonThemes_def)
  from h have there: "readFileSync w (pathJoin [extensionRoot h, ''package.json'']) \<noteq> None"
    by (auto simp: readPackageJson_def split: option.splits)
  have "readPackageJson h ?w1 = Inr pkg2"
    using h by (simp add: readPackageJson_def read_writePackageJson)
  moreover have "syncContributions pkg2 (readImportedThemesFromDisk h ?w1) = Inr pkg2"
    using h syncContributions_idem [of pkg "readImportedThemesFromDisk h w" pkg2] by simp
  ultimately show "syncPackageJsonThemes h ?w1 = Inr ?w1"
    using writePackageJson_again [OF there, of pkg2]
    by (simp add: syncPackageJsonThemes_def)
qed

theorem sync_keeps_foreign_entries_and_is_idempotent_witness:
  "contributedThemes (withThemes [unmanagedEntry, managedEntry (THEME_LABEL_PREFIX @ ''Dark'') ''Dark.json'']) =
     [unmanagedEntry, managedEntry (THEME_LABEL_PREFIX @ ''Dark'') ''Dark.json''] \<and>
   syncPackageJsonThemes demoHost installedWorld =
     Inr (writePackageJson demoHost
            (withThemes [unmanagedEntry, managedEntry (THEME_LABEL_PREFIX @ ''Dark'') ''Dark.json'']) installedWorld) \<and>
   syncPackageJsonThemes demoHost
       (writePackageJson demoHost
          (withThemes [unmanagedEntry, managedEntry (THEME_LABEL_PREFIX @ ''Dark'') ''Dark.json'']) installedWorld) =
     Inr (writePackageJson demoHost
            (withThemes [unmanagedEntry, managedEntry (THEME_LABEL_PREFIX @ ''Dark'') ''Dark.json'']) installedWorld)"
proof -
  let ?pkg = "withThemes [unmanagedEntry]"
  let ?pkg2 = "withThemes [unmanagedEntry, managedEntry (THEME_LABEL_PREFIX @ ''Dark'') ''Dark.json'']"
  let ?ts = "readImportedThemesFromDisk demoHost installedWorld"
  have a: "syncContributions (JObj [(''contributes'', JObj [(''themes'', JArr [unmanagedEntry])])]) ?ts = Inr ?pkg2"
    by code_simp
  have b: "\<forall>cs. map_of [(''contributes'', JObj [(''themes'', JArr [unmanagedEntry])])] ''contributes'' \<noteq> Some (JArr cs)"
    by simp
  have c: "contributedThemes (JObj [(''contributes'', JObj [(''themes'', JArr [unmanagedEntry])])]) = [unmanagedEntry]"
    by code_simp
  have d: "keptEntry unmanagedEntry" by code_simp
  have e: "map contributionOf ?ts = [managedEntry (THEME_LABEL_PREFIX @ ''Dark'') ''Dark.json'']"
    by code_simp
  have r1: "readPackageJson demoHost installedWorld = Inr ?pkg" by code_simp
  have r2: "syncContributions ?pkg ?ts = Inr ?pkg2" by code_simp
  have r3: "parseJSON demoHost (stringifyJSON demoHost ?pkg2) = Some ?pkg2" by code_simp
  have r4: "readImportedThemesFromDisk demoHost (writePackageJson demoHost ?pkg2 installedWorld) = ?ts"
    by code_simp
  note inst = sync_keeps_foreign_entries_and_is_idempotent
    [of "[(''contributes'', JObj [(''themes'', JArr [unmanagedEntry])])]" ?ts ?pkg2
        demoHost installedWorld ?pkg ?pkg2]
  from inst a b have "contributedThemes ?pkg2 =
      filter (\<lambda>entry. truthy entry \<and> getProp entry ''_sh1ffyTag'' \<noteq> Inr (Some (JStr ''sh1ffy-managed'')))
        (contributedThemes (JObj [(''contributes'', JObj [(''themes'', JArr [unmanagedEntry])])])) @
      map contributionOf ?ts"
    by blast
  with c d e have "contributedThemes ?pkg2 = [unmanagedEntry, managedEntry (THEME_LABEL_PREFIX @ ''Dark'') ''Dark.json'']"
    by (simp add: keptEntry_def SH1FFY_THEME_TAG_def)
  moreover from inst r1 r2 r3 r4 have
    "syncPackageJsonThemes demoHost installedWorld = Inr (writePackageJson demoHost ?pkg2 installedWorld) \<and>
     syncPackageJsonThemes demoHost (writePackageJson demoHost ?pkg2 installedWorld) =
       Inr (writePackageJson demoHost ?pkg2 installedWorld)"
    by blast
  ultimately show ?thesis by blast
qed

text \<open>
  A \<^verbatim>\<open>null\<close> among the entries carries no tag, and it is not kept.
\<close>

theorem sync_keeps_foreign_entries_and_is_idempotent_counterexample:
  "getProp JNull ''_sh1ffyTag'' \<noteq> Inr (Some (JStr SH1FFY_THEME_TAG)) \<and>
   contributedThemes (withThemes [JNull, unmanagedEntry]) = [JNull, unmanagedEntry] \<and>
   syncContributions (withThemes [JNull, unmanagedEntry]) [] = Inr (withThemes [unmanagedEntry]) \<and>
   readFileSync nullEntryWorld ''/ext/package.json'' = Some (demoStringify (withThemes [JNull, unmanagedEntry])) \<and>
   map_sum id (\<lambda>w. readFileSync w ''/ext/package.json'') (syncPackageJsonThemes demoHost nullEntryWorld) =
     Inr (Some (demoStringify (withThemes [unmanagedEntry])))"
  by code_simp


text \<open>
  C5. Let a font be configured (the setting is a string that is not empty) and let
  workbench.html hold \<open>html\<close>.  When \<open>html\<close> does not contain \<^verbatim>\<open><style id="sh1ffy-tweaks">\<close>,
  \<^verbatim>\<open>handleEnableCustomFont\<close> writes \<open>html\<close> with one block inserted and touches no other
  file: \<open>html\<close> splits into two parts, and the new text is the first part, the markup with
  a line feed after it (and one before it where there is no \<^verbatim>\<open></head>\<close>) and the second
  part.  The markup is the style tag with the id \<^verbatim>\<open>sh1ffy-tweaks\<close> around the rule whose
  declaration is \<^verbatim>\<open>font-family: "..."\<close> with the configured font, a backslash put before each
  of its double quotes.  When the tag is there already, no file changes.
\<close>

theorem enable_injects_style_block_once:
  "workbenchFont w = Some font \<and> font \<noteq> [] \<and>
   readFileSync w (fst (getWorkbenchPath h w)) = Some html \<longrightarrow>
     (\<not> includes_str html STYLE_TAG_OPEN \<longrightarrow>
        readFileSync (handleEnableCustomFont h answers w) (fst (getWorkbenchPath h w)) =
          Some (injectStyle html (getStyleMarkup font)) \<and>
        (\<exists>pre post lead.
           html = pre @ post \<and> (lead = [] \<or> lead = [newline_char]) \<and>
           injectStyle html (getStyleMarkup font) =
             pre @ lead @ getStyleMarkup font @ [newline_char] @ post) \<and>
        getStyleMarkup font =
          STYLE_TAG_OPEN @ [newline_char] @ cssSelectors @
          ''  font-family: '' @ [dquote_char] @ escapeQuotes font @ [dquote_char] @ '';'' @ [newline_char] @
          ''}'' @ [newline_char] @ ''</style>'' \<and>
        (\<forall>p. p \<noteq> fst (getWorkbenchPath h w) \<longrightarrow>
           readFileSync (handleEnableCustomFont h answers w) p = readFileSync w p)) \<and>
     (includes_str html STYLE_TAG_OPEN \<longrightarrow>
        files (handleEnableCustomFont h answers w) = files w)"
proof (intro impI)
  assume a: "workbenchFont w = Some font \<and> font \<noteq> [] \<and>
    readFileSync w (fst (getWorkbenchPath h w)) = Some html"
  let ?p = "fst (getWorkbenchPath h w)"
  let ?w1 = "snd (getWorkbenchPath h w)"
  from a have run: "handleEnableCustomFont h answers w = enableWithFont h font w"
    by (simp add: noFont_def getWorkbenchFont_def)
  have html: "getWorkbenchHtml h w = (Some html, ?w1)"
    using a by (simp add: getWorkbenchHtml_eq)
  show "(\<not> includes_str html STYLE_TAG_OPEN \<longrightarrow>
        readFileSync (handleEnableCustomFont h answers w) ?p =
          Some (injectStyle html (getStyleMarkup font)) \<and>
        (\<exists>pre post lead.
           html = pre @ post \<and> (lead = [] \<or> lead = [newline_char]) \<and>
           injectStyle html (getStyleMarkup font) =
             pre @ lead @ getStyleMarkup font @ [newline_char] @ post) \<and>
        getStyleMarkup font =
          STYLE_TAG_OPEN @ [newline_char] @ cssSelectors @
          ''  font-family: '' @ [dquote_char] @ escapeQuotes font @ [dquote_char] @ '';'' @ [newline_char] @
          ''}'' @ [newline_char] @ ''</style>'' \<and>
        (\<forall>p. p \<noteq> ?p \<longrightarrow> readFileSync (handleEnableCustomFont h answers w) p = readFileSync w p)) \<and>
     (includes_str html STYLE_TAG_OPEN \<longrightarrow> files (handleEnableCustomFont h answers w) = files w)"
  proof (cases "includes_str html STYLE_TAG_OPEN")
    case True
    then have "handleEnableCustomFont h answers w = ?w1"
      unfolding run by (simp add: enableWithFont_def html)
    with True show ?thesis
      by (simp add: getWorkbenchPath_keeps)
  next
    case False
    then have res: "handleEnableCustomFont h answers w =
        writeFileSync ?p (injectStyle html (getStyleMarkup font)) ?w1"
      unfolding run by (simp add: enableWithFont_def html Let_def saveWorkbenchHtml_after)
    have "readFileSync ?w1 p = readFileSync w p" for p
      by (rule readFileSync_cong) (rule getWorkbenchPath_keeps)
    with res have "readFileSync (handleEnableCustomFont h answers w) ?p =
          Some (injectStyle html (getStyleMarkup font))"
      and "\<forall>p. p \<noteq> ?p \<longrightarrow> readFileSync (handleEnableCustomFont h answers w) p = readFileSync w p"
      by (simp_all add: read_write)
    with False injectStyle_shape [of html "getStyleMarkup font"] getStyleMarkup_text [of font]
    show ?thesis by blast
  qed
qed


theorem enable_injects_style_block_once_witness:
  "readFileSync (handleEnableCustomFont demoHost [] quotedFontWorld)
       ''/app/out/vs/code/electron-sandbox/workbench/workbench.html'' =
     Some (''<html><head>'' @ STYLE_TAG_OPEN @ [newline_char] @ cssSelectors @
           ''  font-family: '' @ [dquote_char] @
           ''My '' @ [backslash_char, dquote_char] @ ''UI'' @ [backslash_char, dquote_char] @
           [dquote_char] @ '';'' @ [newline_char] @ ''}'' @ [newline_char] @ ''</style>'' @
           [newline_char] @ ''</head></html>'') \<and>
   files (handleEnableCustomFont demoHost [] enabledWorld) = files enabledWorld"
proof -
  let ?path = "''/app/out/vs/code/electron-sandbox/workbench/workbench.html''"
  let ?font = "''My '' @ [dquote_char] @ ''UI'' @ [dquote_char]"
  let ?html = "''<html><head></head></html>''"
  have p1: "fst (getWorkbenchPath demoHost quotedFontWorld) = ?path"
    by code_simp
  have h1: "workbenchFont quotedFontWorld = Some ?font" "?font \<noteq> []"
    "readFileSync quotedFontWorld ?path = Some ?html"
    "\<not> includes_str ?html STYLE_TAG_OPEN"
    by code_simp+
  note inst1 = enable_injects_style_block_once
    [where w = quotedFontWorld and h = demoHost and font = ?font and html = ?html and answers = "[]",
     unfolded p1, rule_format]
  have "readFileSync (handleEnableCustomFont demoHost [] quotedFontWorld) ?path =
      Some (injectStyle ?html (getStyleMarkup ?font))"
    using inst1 h1 by blast
  moreover have "injectStyle ?html (getStyleMarkup ?font) =
      ''<html><head>'' @ STYLE_TAG_OPEN @ [newline_char] @ cssSelectors @
           ''  font-family: '' @ [dquote_char] @
           ''My '' @ [backslash_char, dquote_char] @ ''UI'' @ [backslash_char, dquote_char] @
           [dquote_char] @ '';'' @ [newline_char] @ ''}'' @ [newline_char] @ ''</style>'' @
           [newline_char] @ ''</head></html>''"
    by code_simp
  moreover
  have p2: "fst (getWorkbenchPath demoHost enabledWorld) = ?path"
    by code_simp
  have h2: "workbenchFont enabledWorld = Some ''Fira Code''" "''Fira Code'' \<noteq> []"
    "readFileSync enabledWorld ?path = Some (injectStyle ?html (getStyleMarkup ''Fira Code''))"
    "includes_str (injectStyle ?html (getStyleMarkup ''Fira Code'')) STYLE_TAG_OPEN"
    by code_simp+
  note inst2 = enable_injects_style_block_once
    [where w = enabledWorld and h = demoHost and font = "''Fira Code''"
       and html = "injectStyle ?html (getStyleMarkup ''Fira Code'')" and answers = "[]",
     unfolded p2, rule_format]
  have "files (handleEnableCustomFont demoHost [] enabledWorld) = files enabledWorld"
    using inst2 h2 by blast
  ultimately show ?thesis by simp
qed


text \<open>
  C7, as the sources have it.  A font operation leaves every file as it is except
  workbench.html at the path that \<^verbatim>\<open>getWorkbenchPath\<close> returns: the cached path, else the
  \<^verbatim>\<open>electron-sandbox\<close> path when a file is there, else the \<^verbatim>\<open>electron-browser\<close> path.
  A theme operation leaves every file as it is except package.json, the backup
  \<^verbatim>\<open>package.json.sh1ffy.bak\<close> and the files in the themes directory, whose path is the
  path of the directory, a slash and a name.  For the removal of themes this is so when no
  theme file in the themes directory has a backslash in its name; with such a name the
  stored path can lead out of the directory, which is the case of C9.
\<close>

theorem operations_touch_only_their_files:
  "(isFontOperation op \<and> p \<noteq> fst (getWorkbenchPath h w) \<longrightarrow>
      readFileSync (runOperation h op w) p = readFileSync w p) \<and>
   (\<not> isFontOperation op \<and>
    p \<noteq> pathJoin [extensionRoot h, ''package.json''] \<and>
    p \<noteq> pathJoin [extensionRoot h, PACKAGE_JSON_BACKUP] \<and>
    childName (pathJoin [extensionRoot h, THEMES_DIR_RELATIVE]) p = None \<and>
    (isRemoveThemes op \<longrightarrow> backslashFreeThemes h w) \<longrightarrow>
      readFileSync (runOperation h op w) p = readFileSync w p)"
proof (intro conjI impI)
  assume a: "isFontOperation op \<and> p \<noteq> fst (getWorkbenchPath h w)"
  have "fontFrame h w (runOperation h op w)"
    using a
    by (cases op)
      (simp_all add: set_and_enable_frame handleDisableCustomFont_frame
        handleReloadFontConfiguration_frame handleResetToDefaults_frame
        del: handleSetCustomFont.simps handleEnableCustomFont.simps)
  with a show "readFileSync (runOperation h op w) p = readFileSync w p"
    by (simp add: fontFrame_def)
next
  assume a: "\<not> isFontOperation op \<and>
    p \<noteq> pathJoin [extensionRoot h, ''package.json''] \<and>
    p \<noteq> pathJoin [extensionRoot h, PACKAGE_JSON_BACKUP] \<and>
    childName (pathJoin [extensionRoot h, THEMES_DIR_RELATIVE]) p = None \<and>
    (isRemoveThemes op \<longrightarrow> backslashFreeThemes h w)"
  then have out: "p \<notin> themeManagerPaths h"
    by (simp add: themeManagerPaths_def)
  from a show "readFileSync (runOperation h op w) p = readFileSync w p"
    by (cases op)
      (simp_all add: handleImportThemes_frame [OF out] handleRemoveThemes_frame [OF out]
        handleRepairContributions_frame [OF out] handleRestorePackageJsonBackup_frame [OF out]
        handleListThemes_def)
qed

text \<open>
  The theorem at three operations.  Enabling the font with a workbench.html at both
  paths rewrites the one at the \<^verbatim>\<open>electron-sandbox\<close> path and leaves the other.  The
  confirmed removal of the installed theme deletes its file and leaves a file in the
  directory \<^verbatim>\<open>themes-x\<close> beside the themes directory.  An import leaves the imported file
  where it was.
\<close>

theorem operations_touch_only_their_files_witness:
  "readFileSync (runOperation demoHost (EnableFont []) layoutsWorld)
       ''/app/out/vs/code/electron-browser/workbench/workbench.html'' = Some ''<html><head></head></html>'' \<and>
   readFileSync (runOperation demoHost (EnableFont []) layoutsWorld)
       ''/app/out/vs/code/electron-sandbox/workbench/workbench.html'' =
     Some (injectStyle ''<html><head></head></html>'' (getStyleMarkup ''Fira Code'')) \<and>
   backslashFreeThemes demoHost siblingWorld \<and>
   readFileSync (runOperation demoHost (RemoveThemes (Some [0]) (Some ''Remove'')) siblingWorld)
       ''/ext/themes-x/f.json'' = Some ''{}'' \<and>
   readFileSync siblingWorld ''/ext/themes/Dark.json'' \<noteq> None \<and>
   readFileSync (runOperation demoHost (RemoveThemes (Some [0]) (Some ''Remove'')) siblingWorld)
       ''/ext/themes/Dark.json'' = None \<and>
   readFileSync (runOperation demoHost (ImportThemes (Some [(''/home/u/Dark.json'', None)]) None) fullWorld)
       ''/home/u/Dark.json'' = Some ''{}''"
proof -
  have paths:
    "fst (getWorkbenchPath demoHost layoutsWorld) = ''/app/out/vs/code/electron-sandbox/workbench/workbench.html''"
    "pathJoin [extensionRoot demoHost, ''package.json''] = ''/ext/package.json''"
    "pathJoin [extensionRoot demoHost, PACKAGE_JSON_BACKUP] = ''/ext/package.json.sh1ffy.bak''"
    "pathJoin [extensionRoot demoHost, THEMES_DIR_RELATIVE] = ''/ext/themes''"
    by code_simp+
  have before:
    "readFileSync layoutsWorld ''/app/out/vs/code/electron-browser/workbench/workbench.html'' =
       Some ''<html><head></head></html>''"
    "readFileSync siblingWorld ''/ext/themes-x/f.json'' = Some ''{}''"
    "readFileSync fullWorld ''/home/u/Dark.json'' = Some ''{}''"
    by code_simp+
  have outside:
    "childName ''/ext/themes'' ''/ext/themes-x/f.json'' = None"
    "childName ''/ext/themes'' ''/home/u/Dark.json'' = None"
    by code_simp+
  have free: "backslashFreeThemes demoHost siblingWorld"
    by code_simp
  note font = operations_touch_only_their_files
    [where op = "EnableFont []" and h = demoHost and w = layoutsWorld
       and p = "''/app/out/vs/code/electron-browser/workbench/workbench.html''",
     unfolded paths, THEN conjunct1, rule_format]
  note removal = operations_touch_only_their_files
    [where op = "RemoveThemes (Some [0]) (Some ''Remove'')" and h = demoHost
       and w = siblingWorld and p = "''/ext/themes-x/f.json''",
     unfolded paths, THEN conjunct2, rule_format]
  note import = operations_touch_only_their_files
    [where op = "ImportThemes (Some [(''/home/u/Dark.json'', None)]) None" and h = demoHost
       and w = fullWorld and p = "''/home/u/Dark.json''",
     unfolded paths, THEN conjunct2, rule_format]
  have "readFileSync (runOperation demoHost (EnableFont []) layoutsWorld)
       ''/app/out/vs/code/electron-browser/workbench/workbench.html'' = Some ''<html><head></head></html>''"
    using font before by simp
  moreover have "readFileSync (runOperation demoHost (EnableFont []) layoutsWorld)
       ''/app/out/vs/code/electron-sandbox/workbench/workbench.html'' =
     Some (injectStyle ''<html><head></head></html>'' (getStyleMarkup ''Fira Code''))"
    by code_simp
  moreover have "readFileSync (runOperation demoHost (RemoveThemes (Some [0]) (Some ''Remove'')) siblingWorld)
       ''/ext/themes-x/f.json'' = Some ''{}''"
    using removal before outside free by simp
  moreover have "readFileSync siblingWorld ''/ext/themes/Dark.json'' \<noteq> None"
    by code_simp
  moreover have "readFileSync (runOperation demoHost (RemoveThemes (Some [0]) (Some ''Remove'')) siblingWorld)
       ''/ext/themes/Dark.json'' = None"
    by code_simp
  moreover have "readFileSync
      (runOperation demoHost (ImportThemes (Some [(''/home/u/Dark.json'', None)]) None) fullWorld)
      ''/home/u/Dark.json'' = Some ''{}''"
    using import before outside by simp
  ultimately show ?thesis using free by simp
qed

text \<open>
  An import creates a theme file and the backup of package.json, and a confirmed removal
  deletes a theme file: three changes to files that are neither workbench.html nor
  package.json.
\<close>

theorem operations_touch_only_their_files_counterexample:
  "readFileSync importWorld ''/ext/themes/Dark.json'' = None \<and>
   readFileSync importWorld ''/ext/package.json.sh1ffy.bak'' = None \<and>
   readFileSync (runOperation demoHost (ImportThemes (Some [(''/home/u/Dark.json'', None)]) None) importWorld)
       ''/ext/themes/Dark.json'' =
     Some (demoStringify (JObj [(''name'', JStr (THEME_LABEL_PREFIX @ ''Dark'')), (''type'', JStr ''dark'')])) \<and>
   readFileSync (runOperation demoHost (ImportThemes (Some [(''/home/u/Dark.json'', None)]) None) importWorld)
       ''/ext/package.json.sh1ffy.bak'' = Some ''{}'' \<and>
   readFileSync installedWorld ''/ext/themes/Dark.json'' =
     Some (demoStringify (JObj [(''name'', JStr (THEME_LABEL_PREFIX @ ''Dark'')), (''type'', JStr ''dark'')])) \<and>
   readFileSync (runOperation demoHost (RemoveThemes (Some [0]) (Some ''Remove'')) installedWorld)
       ''/ext/themes/Dark.json'' = None"
  by code_simp


text \<open>
  C3, as the sources have it.  Let the HTML contain no opening of a Sh1ffy style tag as
  \<^verbatim>\<open>removeStyle\<close> recognizes it: no \<^verbatim>\<open><style\<close> followed by white space and
  \<^verbatim>\<open>id="sh1ffy-tweaks"\<close>.  Then for every font family name, \<^verbatim>\<open>removeStyle\<close> applied to
  \<^verbatim>\<open>injectStyle(html, getStyleMarkup(font))\<close> yields a text in which
  \<^verbatim>\<open><style id="sh1ffy-tweaks">\<close> does not occur.
\<close>

theorem removeStyle_after_injectStyle:
  "\<not> hasStyleOpening html \<longrightarrow>
     \<not> includes_str (removeStyle (injectStyle html (getStyleMarkup font))) STYLE_TAG_OPEN"
proof
  assume no: "\<not> hasStyleOpening html"
  let ?markup = "getStyleMarkup font"
  let ?e = "escapeQuotes font"
  from injectStyle_around [OF no, of ?markup] obtain a c where
    eq: "injectStyle html ?markup = a @ ?markup @ newline_char # c"
    and p1: "\<forall>i<length a. \<forall>y. \<not> styleOpeningAt (drop i a @ CHR ''<'' # y)"
    and p2: "\<not> sublist styleTagHead a"
    and p3: "\<not> sublist STYLE_TAG_OPEN c"
    by blast
  let ?body = "cssHead @ ?e @ cssTail @ newline_char # c"
  have markup: "?markup @ newline_char # c = STYLE_TAG_OPEN @ ?body"
    by (simp add: getStyleMarkup_parts)
  obtain y where y: "STYLE_TAG_OPEN @ ?body = CHR ''<'' # y"
    by (simp add: STYLE_TAG_OPEN_def)
  have "\<forall>i<length a. matchStyleBlock (drop i a @ STYLE_TAG_OPEN @ ?body) = None"
  proof (intro allI impI)
    fix i assume "i < length a"
    with p1 have "\<not> styleOpeningAt (drop i a @ STYLE_TAG_OPEN @ ?body)"
      unfolding y by blast
    then show "matchStyleBlock (drop i a @ STYLE_TAG_OPEN @ ?body) = None"
      using matchStyleBlock_opening by (cases "matchStyleBlock (drop i a @ STYLE_TAG_OPEN @ ?body)") auto
  qed
  then have skip: "removeStyle (a @ STYLE_TAG_OPEN @ ?body) = a @ removeStyle (STYLE_TAG_OPEN @ ?body)"
    by (rule removeStyle_skip)
  have close: "afterStyleClose ?body = afterStyleClose (?e @ cssTail @ newline_char # c)"
    using cssHead_no_angle by (rule afterStyleClose_skip)
  have nbq: "noBareQuote (CHR ''x'') ?e" by (rule noBareQuote_escapeQuotes)
  have tag_not_in: "\<not> sublist STYLE_TAG_OPEN (a @ rest)"
    if "afterStyleClose ?body = Some rest" for rest
  proof -
    from afterStyleClose_escaped [OF nbq, of "newline_char # c"] that close
    consider "rest = newline_char # c"
      | e' where "noBareQuote (CHR ''>'') e'" "rest = e' @ cssTail @ newline_char # c"
      by auto
    then show ?thesis
    proof cases
      case 1
      show ?thesis
      proof
        assume "sublist STYLE_TAG_OPEN (a @ rest)"
        then have "sublist STYLE_TAG_OPEN a \<or> sublist STYLE_TAG_OPEN c"
          unfolding 1 by (rule sublist_split_at_fresh [OF tag_facts(1)])
        with p3 have "sublist STYLE_TAG_OPEN a" by simp
        with tag_facts(4) have "sublist styleTagHead a" by (rule sublist_order.order.trans)
        with p2 show False by simp
      qed
    next
      case 2
      show ?thesis
      proof
        assume "sublist STYLE_TAG_OPEN (a @ rest)"
        then have "sublist STYLE_TAG_OPEN ((a @ e' @ cssTail) @ newline_char # c)"
          unfolding 2 by simp
        then have "sublist STYLE_TAG_OPEN (a @ e' @ cssTail) \<or> sublist STYLE_TAG_OPEN c"
          by (rule sublist_split_at_fresh [OF tag_facts(1)])
        with p3 no_tag_across [OF p2 2(1)] show False by simp
      qed
    qed
  qed
  obtain rest where rest: "afterStyleClose ?body = Some rest"
    using afterStyleClose_escaped [OF nbq, of "newline_char # c"] close by auto
  then have "removeStyle (STYLE_TAG_OPEN @ ?body) = rest" by (rule removeStyle_tag)
  with skip eq markup have "removeStyle (injectStyle html ?markup) = a @ rest" by simp
  with tag_not_in [OF rest] show "\<not> includes_str (removeStyle (injectStyle html ?markup)) STYLE_TAG_OPEN"
    by (simp add: includes_str_def indexOf_None_sublist)
qed

theorem removeStyle_after_injectStyle_witness:
  "\<not> includes_str
       (removeStyle (injectStyle ''<html><head></head></html>'' (getStyleMarkup ''a</style>b'')))
       STYLE_TAG_OPEN \<and>
   removeStyle (injectStyle ''<html><head></head></html>'' (getStyleMarkup ''Fira Code'')) =
     ''<html><head>\<newline></head></html>''"
proof -
  have "\<not> hasStyleOpening ''<html><head></head></html>''"
    by code_simp
  then have "\<not> includes_str
       (removeStyle (injectStyle ''<html><head></head></html>'' (getStyleMarkup ''a</style>b'')))
       STYLE_TAG_OPEN"
    using removeStyle_after_injectStyle [of "''<html><head></head></html>''" "''a</style>b''"]
    by (rule rev_mp)
  moreover have "removeStyle (injectStyle ''<html><head></head></html>'' (getStyleMarkup ''Fira Code'')) =
     ''<html><head>\<newline></head></html>''"
    by code_simp
  ultimately show ?thesis by (rule conjI)
qed

text \<open>
  A document whose style tag has two spaces before the id does not contain the marker, yet
  \<^verbatim>\<open>removeStyle\<close> takes that tag for the fragment: it removes the earlier block and leaves
  the injected one.
\<close>

theorem removeStyle_after_injectStyle_counterexample:
  "\<not> includes_str spacedStyleHtml STYLE_TAG_OPEN \<and>
   includes_str (removeStyle (injectStyle spacedStyleHtml (getStyleMarkup ''Fira Code''))) STYLE_TAG_OPEN \<and>
   removeStyle (injectStyle spacedStyleHtml (getStyleMarkup ''Fira Code'')) =
     [newline_char] @ getStyleMarkup ''Fira Code'' @ [newline_char]"
  by code_simp

end
